theory Spec2Isabelle
  imports Complex_Main "HOL-Library.Sublist" "HOL-Library.Monad_Syntax"
begin

section \<open>The document\<close>

text \<open>
  \<^verbatim>\<open>transform.js\<close> rewrites one BPMN document held as a DOM tree. The model keeps,
  per element kind, the list of elements in document order with the attributes the
  program reads. Every query of the program (\<^verbatim>\<open>select\<close>) returns the elements of one
  kind in document order, so the relative order inside one kind is all a query can see.
  The queries start at the first process element and at the first diagram plane: the
  lists hold what lies below these two, and an element elsewhere in the file (in a
  second process, in a second diagram) is neither read nor changed by the program.
  The elements of the lists are taken to lie side by side, in the process, in its
  sub-processes and lanes, and in the plane, none inside a task, a group, an annotation,
  an association or a flow: detaching one of them detaches no other.

  Strings are byte lists (the UTF-8 form of the JavaScript string): equality,
  concatenation and a prefix test against an ASCII literal agree with the JavaScript
  operations.

  An attribute is read with \<^verbatim>\<open>getAttribute\<close>, which yields \<^verbatim>\<open>null\<close> for an attribute that
  is absent (so the DOM standard, and \<^verbatim>\<open>@xmldom/xmldom\<close> from 0.9 on; the program pins no
  version): the value is \<open>Some\<close> of the text, or \<open>None\<close>. The program keeps such values
  as they are in its variables, as keys of its maps and as members of its sets, where
  \<^verbatim>\<open>null\<close> differs from every string. Where it turns a value into text, in a template
  literal or in the argument of \<^verbatim>\<open>setAttribute\<close>, \<^verbatim>\<open>null\<close> becomes the four letters
  \<^verbatim>\<open>null\<close> (\<open>str\<close>); \<^verbatim>\<open>v || ''\<close> is \<open>orEmpty\<close>, and \<^verbatim>\<open>!v\<close> is \<open>falsy\<close>.
\<close>

definition str :: "string option \<Rightarrow> string" where
  "str v = (case v of None \<Rightarrow> ''null'' | Some s \<Rightarrow> s)"

definition orEmpty :: "string option \<Rightarrow> string" where
  "orEmpty v = (case v of None \<Rightarrow> [] | Some s \<Rightarrow> s)"

definition falsy :: "string option \<Rightarrow> bool" where
  "falsy v = (v = None \<or> v = Some [])"

text \<open>
  A query with an interpolated value, such as \<^verbatim>\<open>[@bpmnElement="${elId}"]\<close>, selects the
  elements that carry the attribute with the text of the value: the attribute is
  \<open>Some (str elId)\<close>, and an element without the attribute is never selected. This is
  the meaning of the query when the text holds no double quote (\<open>plain\<close>). A double
  quote in the text ends the literal of the query early; what such a query selects, or
  whether it can be parsed at all, depends on the XPath parser and is not modelled: the
  statements about masking suppose documents without such texts (\<open>queryable\<close> below).
\<close>

definition plain :: "string option \<Rightarrow> bool" where
  "plain v = (CHR 0x22 \<notin> set (str v))"

text \<open>
  Numbers: \<^verbatim>\<open>parseFloat\<close> yields a double, of which the program only asks
  \<^verbatim>\<open>Number.isFinite\<close>, \<^verbatim>\<open>>=\<close> and \<^verbatim>\<open><\<close>. A finite double is modelled by its exact
  rational value, on which the two comparisons agree with the IEEE ones.
\<close>

datatype jsnum = Num rat | PosInf | NegInf | NaN

fun js_ge :: "jsnum \<Rightarrow> jsnum \<Rightarrow> bool" where
  "js_ge NaN _ = False"
| "js_ge _ NaN = False"
| "js_ge (Num a) (Num b) = (b \<le> a)"
| "js_ge PosInf _ = True"
| "js_ge _ NegInf = True"
| "js_ge _ _ = False"

fun js_lt :: "jsnum \<Rightarrow> jsnum \<Rightarrow> bool" where
  "js_lt NaN _ = False"
| "js_lt _ NaN = False"
| "js_lt (Num a) (Num b) = (a < b)"
| "js_lt PosInf _ = False"
| "js_lt _ NegInf = False"
| "js_lt _ _ = True"

fun isFinite :: "jsnum \<Rightarrow> bool" where
  "isFinite (Num _) = True"
| "isFinite _ = False"

text \<open>
  A task-like child of the process (\<^verbatim>\<open>getTaskList\<close>). \<open>privacy\<close> is the number the
  masking pass computes from the attribute: \<open>NaN\<close> when the attribute is absent or does
  not parse.
\<close>

record task =
  t_id :: "string option"
  privacy :: jsnum

text \<open>
  A sequence flow. \<open>coupling\<close> is \<open>None\<close> when the weight attribute is absent or empty
  (\<^verbatim>\<open>!weightStr\<close>), otherwise the parsed number. \<open>direct\<close> tells whether the flow is a
  child of the process element (\<^verbatim>\<open>./bpmn:sequenceFlow\<close>, read by masking) or lies
  deeper (seen only by \<^verbatim>\<open>.//bpmn:sequenceFlow\<close>, read by fragmentation).
\<close>

record flow =
  f_id :: "string option"
  f_sourceRef :: "string option"
  f_targetRef :: "string option"
  coupling :: "jsnum option"
  direct :: bool

record assoc =
  a_id :: "string option"
  a_sourceRef :: "string option"
  a_targetRef :: "string option"

text \<open>A group; \<open>g_fragmentId\<close> is the \<^verbatim>\<open>cpl:fragmentId\<close> attribute.\<close>

record group =
  g_id :: "string option"
  g_fragmentId :: "string option"

text \<open>Diagram elements of the plane; \<open>s_hasBounds\<close>: the shape has a \<^verbatim>\<open>dc:Bounds\<close> child.\<close>

record shape =
  s_id :: "string option"
  s_bpmnElement :: "string option"
  s_hasBounds :: bool

record edge =
  e_id :: "string option"
  e_bpmnElement :: "string option"

text \<open>
  The document. \<open>tasks\<close> are the task-like children of the first process; \<open>flows\<close>,
  \<open>associations\<close>, \<open>groups\<close> and \<open>annotations\<close> are the elements of these kinds anywhere
  below that process, \<open>annotations\<close> holding the \<^verbatim>\<open>id\<close> attribute of each
  \<^verbatim>\<open>textAnnotation\<close>. \<open>shapes\<close> and \<open>edges\<close> are the elements below the first
  \<^verbatim>\<open>BPMNPlane\<close>, which exists when \<open>planeExists\<close>.
\<close>

record document =
  tasks :: "task list"
  flows :: "flow list"
  associations :: "assoc list"
  annotations :: "string option list"
  groups :: "group list"
  planeExists :: bool
  shapes :: "shape list"
  edges :: "edge list"

subsection \<open>The plane\<close>

text \<open>\<^verbatim>\<open>ensurePlane\<close>: the first plane, or a new empty one appended to the definitions.\<close>

definition ensurePlane :: "document \<Rightarrow> document" where
  "ensurePlane d =
     (if planeExists d then d else d\<lparr>planeExists := True, shapes := [], edges := []\<rparr>)"

section \<open>The cleanup pass\<close>

definition fragmentPrefix :: string where
  "fragmentPrefix = ''Fragment_''"

text \<open>The filter of \<^verbatim>\<open>oldGroups\<close>: a provenance attribute, or the reserved id prefix.\<close>

definition isOldGroup :: "group \<Rightarrow> bool" where
  "isOldGroup g = (g_fragmentId g \<noteq> None \<or> prefix fragmentPrefix (orEmpty (g_id g)))"

definition clearOldFragments :: "document \<Rightarrow> document" where
  "clearOldFragments d =
     (let d1 = d\<lparr>groups := filter (\<lambda>g. \<not> isOldGroup g) (groups d)\<rparr>;
          d2 = ensurePlane d1;
          d3 = d2\<lparr>shapes :=
                 filter (\<lambda>s. \<not> prefix fragmentPrefix (orEmpty (s_bpmnElement s))) (shapes d2)\<rparr>
      in d3\<lparr>associations :=
               filter (\<lambda>a. \<not> prefix fragmentPrefix (orEmpty (a_sourceRef a))) (associations d3)\<rparr>)"

section \<open>Removing associations and orphaned annotations\<close>

text \<open>
  In each of these functions \<open>elId\<close> is a value the caller has read from an attribute,
  interpolated into the query.
\<close>

definition removeDIShapeForElement :: "document \<Rightarrow> string option \<Rightarrow> document" where
  "removeDIShapeForElement d elId =
     d\<lparr>shapes := filter (\<lambda>s. s_bpmnElement s \<noteq> Some (str elId)) (shapes d)\<rparr>"

definition removeDIEdgeForElement :: "document \<Rightarrow> string option \<Rightarrow> document" where
  "removeDIEdgeForElement d elId =
     d\<lparr>edges := filter (\<lambda>e. e_bpmnElement e \<noteq> Some (str elId)) (edges d)\<rparr>"

text \<open>The test \<^verbatim>\<open>[@sourceRef="${elId}" or @targetRef="${elId}"]\<close> on an association.\<close>

definition touches :: "string option \<Rightarrow> assoc \<Rightarrow> bool" where
  "touches elId a = (a_sourceRef a = Some (str elId) \<or> a_targetRef a = Some (str elId))"

definition countAssociationsTouching :: "document \<Rightarrow> string option \<Rightarrow> nat" where
  "countAssociationsTouching d elId = length (filter (touches elId) (associations d))"

text \<open>
  \<^verbatim>\<open>maybeRemoveTextAnnotationIfOrphaned\<close>: the first annotation of that id
  (\<^verbatim>\<open>select(...)[0]\<close>) goes, with every shape drawn for the id.
\<close>

definition maybeRemoveTextAnnotationIfOrphaned :: "document \<Rightarrow> string option \<Rightarrow> document" where
  "maybeRemoveTextAnnotationIfOrphaned d taId =
     (if countAssociationsTouching d taId > 0 then d
      else removeDIShapeForElement
             (d\<lparr>annotations := remove1 (Some (str taId)) (annotations d)\<rparr>) taId)"

text \<open>
  \<^verbatim>\<open>removeAssociationCascade\<close>. Both \<^verbatim>\<open>srcIsTA\<close> and \<^verbatim>\<open>tgtIsTA\<close> are read after the
  association is detached and before either annotation is looked at.
\<close>

definition removeAssociationCascade :: "document \<Rightarrow> assoc \<Rightarrow> document" where
  "removeAssociationCascade d a =
     (let d1 = removeDIEdgeForElement d (a_id a);
          d2 = d1\<lparr>associations := remove1 a (associations d1)\<rparr>;
          srcIsTA = (Some (str (a_sourceRef a)) \<in> set (annotations d2));
          tgtIsTA = (Some (str (a_targetRef a)) \<in> set (annotations d2));
          d3 = (if srcIsTA then maybeRemoveTextAnnotationIfOrphaned d2 (a_sourceRef a) else d2)
      in (if tgtIsTA then maybeRemoveTextAnnotationIfOrphaned d3 (a_targetRef a) else d3))"

text \<open>\<^verbatim>\<open>removeAllAssociationsTouchingId\<close>: the touching associations are collected first.\<close>

definition removeAllAssociationsTouchingId :: "document \<Rightarrow> string option \<Rightarrow> document" where
  "removeAllAssociationsTouchingId d elId =
     foldl removeAssociationCascade d (filter (touches elId) (associations d))"

section \<open>Masking\<close>

subsection \<open>The masked set\<close>

text \<open>\<^verbatim>\<open>privacyDir\<close>: the string \<^verbatim>\<open>'above'\<close>, or anything else (the CLI admits only \<^verbatim>\<open>'below'\<close>).\<close>

datatype direction = Above | Below

definition shouldMask :: "direction \<Rightarrow> jsnum \<Rightarrow> jsnum \<Rightarrow> bool" where
  "shouldMask privacyDir privacyThreshold p =
     (if isFinite p
      then (if privacyDir = Above then js_ge p privacyThreshold else js_lt p privacyThreshold)
      else False)"

text \<open>\<^verbatim>\<open>maskedIds\<close> holds what \<^verbatim>\<open>getAttribute('id')\<close> yields for each selected task.\<close>

definition maskedIds :: "document \<Rightarrow> jsnum \<Rightarrow> direction \<Rightarrow> string option list" where
  "maskedIds d privacyThreshold privacyDir =
     map t_id (filter (\<lambda>t. shouldMask privacyDir privacyThreshold (privacy t)) (tasks d))"

subsection \<open>The boundary resolver\<close>

text \<open>
  \<^verbatim>\<open>flowsBySource\<close> and \<^verbatim>\<open>flowsByTarget\<close> are built once from \<^verbatim>\<open>allFlows\<close>, each key
  holding its flows in document order; a missing key reads as the empty list. The keys
  are the values of the attributes, \<^verbatim>\<open>null\<close> for the flows that lack the attribute.
\<close>

definition flowsBySource :: "flow list \<Rightarrow> string option \<Rightarrow> flow list" where
  "flowsBySource allFlows s = filter (\<lambda>f. f_sourceRef f = s) allFlows"

definition flowsByTarget :: "flow list \<Rightarrow> string option \<Rightarrow> flow list" where
  "flowsByTarget allFlows t = filter (\<lambda>f. f_targetRef f = t) allFlows"

text \<open>
  The body of the inner \<^verbatim>\<open>forEach\<close> of either traversal, on the triple of queue, seen
  set and result set (both sets in insertion order).
\<close>

fun visit :: "string option list
    \<Rightarrow> string option list \<times> string option list \<times> string option list \<Rightarrow> string option
    \<Rightarrow> string option list \<times> string option list \<times> string option list" where
  "visit maskedSet (q, seen, acc) s =
     (if s \<in> set maskedSet
      then (if s \<in> set seen then (q, seen, acc) else (q @ [s], seen @ [s], acc))
      else (q, seen, if s \<in> set acc then acc else acc @ [s]))"

text \<open>
  The \<^verbatim>\<open>while (q.length)\<close> loop; \<open>nbrs cur\<close> lists the far ends of the flows at \<open>cur\<close>
  (sources of the incoming flows upward, targets of the outgoing flows downward).
\<close>

function bfsLoop :: "(string option \<Rightarrow> string option list) \<Rightarrow> string option list
    \<Rightarrow> string option list \<Rightarrow> string option list \<Rightarrow> string option list
    \<Rightarrow> string option list" where
  "bfsLoop nbrs maskedSet [] seen acc = acc"
| "bfsLoop nbrs maskedSet (cur # q) seen acc =
     (case foldl (visit maskedSet) (q, seen, acc) (nbrs cur) of
        (q', seen', acc') \<Rightarrow> bfsLoop nbrs maskedSet q' seen' acc')"
  by pat_completeness auto

lemma visit_measure:
  "visit maskedSet (q, seen, acc) s = (q', seen', acc') \<Longrightarrow>
   card (set maskedSet - set seen') + length q' = card (set maskedSet - set seen) + length q"
proof (cases "s \<in> set maskedSet \<and> s \<notin> set seen")
  case True
  assume v: "visit maskedSet (q, seen, acc) s = (q', seen', acc')"
  from True v have q': "q' = q @ [s]" and s': "seen' = seen @ [s]" by auto
  have "set maskedSet - set seen' = (set maskedSet - set seen) - {s}"
    using s' by auto
  moreover have "s \<in> set maskedSet - set seen" using True by simp
  ultimately have "card (set maskedSet - set seen') = card (set maskedSet - set seen) - 1"
    by simp
  moreover have "card (set maskedSet - set seen) > 0"
    using \<open>s \<in> set maskedSet - set seen\<close> card_gt_0_iff by blast
  ultimately show ?thesis using q' by simp
next
  case False
  assume "visit maskedSet (q, seen, acc) s = (q', seen', acc')"
  with False show ?thesis by (auto split: if_splits)
qed

lemma visit_fold_measure:
  "foldl (visit maskedSet) (q, seen, acc) ns = (q', seen', acc') \<Longrightarrow>
   card (set maskedSet - set seen') + length q' = card (set maskedSet - set seen) + length q"
proof (induction ns arbitrary: q seen acc)
  case Nil
  then show ?case by simp
next
  case (Cons n ns)
  obtain q1 seen1 acc1 where v: "visit maskedSet (q, seen, acc) n = (q1, seen1, acc1)"
    by (cases "visit maskedSet (q, seen, acc) n") blast
  from Cons.prems v have "foldl (visit maskedSet) (q1, seen1, acc1) ns = (q', seen', acc')"
    by simp
  from Cons.IH [OF this] visit_measure [OF v] show ?case by simp
qed

termination bfsLoop
proof (relation "measure (\<lambda>(nbrs, maskedSet, q, seen, acc).
          card (set maskedSet - set seen) + length q)")
  show "wf (measure (\<lambda>(nbrs, maskedSet, q, seen, acc).
          card (set maskedSet - set seen) + length q))"
    by simp
next
  fix nbrs :: "string option \<Rightarrow> string option list" and maskedSet cur q seen acc q' y seen' acc'
  assume "(q', y) = foldl (visit maskedSet) (q, seen, acc) (nbrs cur)"
    and "(seen', acc') = y"
  then have "foldl (visit maskedSet) (q, seen, acc) (nbrs cur) = (q', seen', acc')"
    by simp
  from visit_fold_measure [OF this]
  show "((nbrs, maskedSet, q', seen', acc'), (nbrs, maskedSet, cur # q, seen, acc))
      \<in> measure (\<lambda>(nbrs, maskedSet, q, seen, acc). card (set maskedSet - set seen) + length q)"
    by simp
qed

text \<open>\<^verbatim>\<open>collectBoundaryNeighbors\<close>, returning \<open>(preds, succs)\<close>.\<close>

definition collectBoundaryNeighbors :: "string option \<Rightarrow> flow list \<Rightarrow> string option list
    \<Rightarrow> string option list \<times> string option list" where
  "collectBoundaryNeighbors mid allFlows maskedSet =
     (bfsLoop (\<lambda>cur. map f_sourceRef (flowsByTarget allFlows cur)) maskedSet [mid] [mid] [],
      bfsLoop (\<lambda>cur. map f_targetRef (flowsBySource allFlows cur)) maskedSet [mid] [mid] [])"

subsection \<open>Synthesis of bypass flows\<close>

text \<open>\<^verbatim>\<open>String(n)\<close> for a natural number.\<close>

definition digit :: "nat \<Rightarrow> char" where
  "digit n = ''0123456789'' ! (n mod 10)"

fun showNat :: "nat \<Rightarrow> string" where
  "showNat n = (if n < 10 then [digit n] else showNat (n div 10) @ [digit (n mod 10)])"

declare showNat.simps [simp del]

text \<open>
  The separator of \<^verbatim>\<open>pairKey\<close> is the character U+2192, three bytes in UTF-8; the two
  values are interpolated around it.
\<close>

definition arrow :: string where
  "arrow = [CHR 0xE2, CHR 0x86, CHR 0x92]"

definition pairKey :: "string option \<Rightarrow> string option \<Rightarrow> string" where
  "pairKey src tgt = str src @ arrow @ str tgt"

text \<open>
  \<^verbatim>\<open>existingFlow\<close>: the first child of the process that is a sequence flow carrying
  both attributes with the interpolated texts.
\<close>

definition existingFlow :: "document \<Rightarrow> string option \<Rightarrow> string option \<Rightarrow> flow option" where
  "existingFlow d src tgt =
     find (\<lambda>f. direct f \<and> f_sourceRef f = Some (str src) \<and> f_targetRef f = Some (str tgt))
       (flows d)"

text \<open>
  What a run does to the document, in the order in which it does it: the flows it
  appends and the elements it detaches. The program keeps no such record; the model
  keeps one (\<open>trace\<close> below) so that statements can speak of the flows a run has
  synthesized and of the order of its steps.
\<close>

datatype event =
    Created flow
  | DeletedFlow flow
  | DeletedAssociation assoc
  | DeletedAnnotation "string option"
  | DeletedNode task
  | DeletedShape shape
  | DeletedEdge edge

fun isCreated :: "event \<Rightarrow> bool" where
  "isCreated (Created _) = True"
| "isCreated _ = False"

fun createdIn :: "event list \<Rightarrow> flow list" where
  "createdIn [] = []"
| "createdIn (Created f # es) = f # createdIn es"
| "createdIn (_ # es) = createdIn es"

text \<open>
  \<open>listDiff xs ys\<close>: the elements of \<open>xs\<close> that are missing in \<open>ys\<close>, as many times as they
  are missing. For a step that only detaches elements, \<open>deleted d d'\<close> lists what the
  step has detached on the way from \<open>d\<close> to \<open>d'\<close>.
\<close>

definition listDiff :: "'a list \<Rightarrow> 'a list \<Rightarrow> 'a list" where
  "listDiff xs ys = foldl (\<lambda>r y. remove1 y r) xs ys"

definition deleted :: "document \<Rightarrow> document \<Rightarrow> event list" where
  "deleted d d' =
     map DeletedFlow (listDiff (flows d) (flows d'))
     @ map DeletedAssociation (listDiff (associations d) (associations d'))
     @ map DeletedAnnotation (listDiff (annotations d) (annotations d'))
     @ map DeletedNode (listDiff (tasks d) (tasks d'))
     @ map DeletedShape (listDiff (shapes d) (shapes d'))
     @ map DeletedEdge (listDiff (edges d) (edges d'))"

text \<open>
  The variables of one run of \<^verbatim>\<open>maskByPrivacy\<close>: the document, \<^verbatim>\<open>counter\<close>,
  \<^verbatim>\<open>removedFlowIds\<close> and \<^verbatim>\<open>autoFlowPairs\<close>; and the record of its steps. \<open>created\<close>
  lists, in order, the flows the run has synthesized so far.
\<close>

record mstate =
  mdoc :: document
  counter :: nat
  removedFlowIds :: "string option list"
  autoFlowPairs :: "string list"
  trace :: "event list"

definition created :: "mstate \<Rightarrow> flow list" where
  "created st = createdIn (trace st)"

text \<open>The shape lookup \<^verbatim>\<open>.//bpmndi:BPMNShape[@bpmnElement="..."]/dc:Bounds\<close>.\<close>

definition boundsOf :: "document \<Rightarrow> string option \<Rightarrow> shape option" where
  "boundsOf d elId = find (\<lambda>s. s_bpmnElement s = Some (str elId) \<and> s_hasBounds s) (shapes d)"

text \<open>
  The body of the innermost \<^verbatim>\<open>forEach\<close>: one candidate pair. \<open>src\<close> and \<open>tgt\<close> are
  compared as values (\<^verbatim>\<open>===\<close>) and written as texts.
\<close>

definition bypassPair :: "mstate \<Rightarrow> string option \<Rightarrow> string option \<Rightarrow> mstate" where
  "bypassPair st src tgt =
     (if src = tgt then st
      else if pairKey src tgt \<in> set (autoFlowPairs st) then st
      else if existingFlow (mdoc st) src tgt \<noteq> None then st
      else
        (let c = counter st + 1;
             newId = ''AutoFlow_'' @ showNat c;
             nf = \<lparr>f_id = Some newId, f_sourceRef = Some (str src), f_targetRef = Some (str tgt),
                   coupling = None, direct = True\<rparr>;
             d = mdoc st;
             d1 = d\<lparr>flows := flows d @ [nf]\<rparr>;
             d2 = (if boundsOf d1 src \<noteq> None \<and> boundsOf d1 tgt \<noteq> None
                   then d1\<lparr>edges := edges d1 @
                          [\<lparr>e_id = Some (newId @ ''_di''), e_bpmnElement = Some newId\<rparr>]\<rparr>
                   else d1)
         in st\<lparr>mdoc := d2, counter := c,
                autoFlowPairs := pairKey src tgt # autoFlowPairs st,
                trace := trace st @ [Created nf]\<rparr>))"

text \<open>The inner \<^verbatim>\<open>maskedIds.forEach\<close>, for one masked id and for the whole masked set.\<close>

definition synthesizeFor :: "flow list \<Rightarrow> string option list \<Rightarrow> mstate \<Rightarrow> string option
    \<Rightarrow> mstate" where
  "synthesizeFor allFlows masked st mid =
     (case collectBoundaryNeighbors mid allFlows masked of
        (preds, succs) \<Rightarrow>
          foldl (\<lambda>st src. foldl (\<lambda>st tgt. bypassPair st src tgt) st succs) st preds)"

definition synthesizeAll :: "flow list \<Rightarrow> string option list \<Rightarrow> mstate \<Rightarrow> mstate" where
  "synthesizeAll allFlows masked st = foldl (synthesizeFor allFlows masked) st masked"

subsection \<open>Removal\<close>

text \<open>The body of \<^verbatim>\<open>toRemove.forEach\<close>.\<close>

definition removeFlowStep :: "mstate \<Rightarrow> flow \<Rightarrow> mstate" where
  "removeFlowStep st f =
     (if falsy (f_id f) \<or> f_id f \<in> set (removedFlowIds st) then st
      else
        (let d1 = removeAllAssociationsTouchingId (mdoc st) (f_id f);
             d2 = removeDIEdgeForElement d1 (f_id f);
             d3 = d2\<lparr>flows := remove1 f (flows d2)\<rparr>
         in st\<lparr>mdoc := d3, removedFlowIds := f_id f # removedFlowIds st,
                trace := trace st @ deleted (mdoc st) d3\<rparr>))"

text \<open>
  \<^verbatim>\<open>byId\<close> maps an id to the last task that carries it. The node is detached once; when
  the same id comes again in \<^verbatim>\<open>maskedIds\<close> its \<^verbatim>\<open>parentNode\<close> is null and nothing is
  removed (\<open>detached\<close> below). Tasks of the same id removed before are none, so the node
  is the last task of that id still in the document.
\<close>

definition byId :: "task list \<Rightarrow> string option \<Rightarrow> task option" where
  "byId ts mid = (case filter (\<lambda>t. t_id t = mid) ts of [] \<Rightarrow> None | t # r \<Rightarrow> Some (last (t # r)))"

definition removeNode :: "document \<Rightarrow> task \<Rightarrow> document" where
  "removeNode d node = d\<lparr>tasks := rev (remove1 node (rev (tasks d)))\<rparr>"

text \<open>Steps 2 to 4 of the outer loop body, for the masked id \<open>mid\<close>.\<close>

definition excise :: "flow list \<Rightarrow> task list \<Rightarrow> bool \<Rightarrow> mstate \<Rightarrow> string option \<Rightarrow> mstate" where
  "excise allFlows tasks0 detached st mid =
     (let incoming = flowsByTarget allFlows mid;
          outgoing = flowsBySource allFlows mid;
          st2 = foldl removeFlowStep st (incoming @ outgoing);
          d3 = removeAllAssociationsTouchingId (mdoc st2) mid;
          d4 = (case byId tasks0 mid of
                  None \<Rightarrow> d3
                | Some node \<Rightarrow> if detached then d3 else removeNode d3 node);
          d5 = removeDIShapeForElement d4 mid
      in st2\<lparr>mdoc := d5, trace := trace st2 @ deleted (mdoc st2) d5\<rparr>)"

text \<open>
  The outer \<^verbatim>\<open>maskedIds.forEach\<close>: each round runs the synthesis for the whole masked
  set and then removes what touches its own masked id. \<open>seen\<close> holds the ids of the
  rounds already run.
\<close>

fun maskLoop :: "flow list \<Rightarrow> string option list \<Rightarrow> task list \<Rightarrow> string option list \<Rightarrow> mstate
    \<Rightarrow> string option list \<Rightarrow> mstate" where
  "maskLoop allFlows masked tasks0 seen st [] = st"
| "maskLoop allFlows masked tasks0 seen st (mid # rest) =
     maskLoop allFlows masked tasks0 (mid # seen)
       (excise allFlows tasks0 (mid \<in> set seen) (synthesizeAll allFlows masked st) mid) rest"

definition initState :: "document \<Rightarrow> mstate" where
  "initState d = \<lparr>mdoc = d, counter = 0, removedFlowIds = [], autoFlowPairs = [], trace = []\<rparr>"

definition maskRun :: "document \<Rightarrow> jsnum \<Rightarrow> direction \<Rightarrow> mstate" where
  "maskRun d privacyThreshold privacyDir =
     (let d0 = ensurePlane d;
          masked = maskedIds d0 privacyThreshold privacyDir;
          allFlows = filter direct (flows d0)
      in maskLoop allFlows masked (tasks d0) [] (initState d0) masked)"

text \<open>\<^verbatim>\<open>maskByPrivacy\<close>: the count it returns and the document it leaves.\<close>

definition maskByPrivacy :: "document \<Rightarrow> jsnum \<Rightarrow> direction \<Rightarrow> nat \<times> document" where
  "maskByPrivacy d privacyThreshold privacyDir =
     (let d0 = ensurePlane d;
          masked = maskedIds d0 privacyThreshold privacyDir
      in if masked = [] then (0, d0)
         else (length masked, mdoc (maskRun d privacyThreshold privacyDir)))"

section \<open>Reachability through masked nodes\<close>

text \<open>
  The words of the specification for the boundary resolver. One step backward from \<open>x\<close>
  follows a flow that ends at \<open>x\<close> to its source \<open>y\<close>, and may be continued only when
  \<open>y\<close> is masked; \<open>specPreds\<close> are the unmasked sources of the flows that end at a node
  reached from \<open>m\<close> by zero or more such steps. \<open>specSuccs\<close> is the same along the flows.
\<close>

definition backwardMasked :: "flow list \<Rightarrow> string option list
    \<Rightarrow> (string option \<times> string option) set" where
  "backwardMasked allFlows maskedSet =
     {(x, y). \<exists>f \<in> set allFlows. f_targetRef f = x \<and> f_sourceRef f = y \<and> y \<in> set maskedSet}"

definition forwardMasked :: "flow list \<Rightarrow> string option list
    \<Rightarrow> (string option \<times> string option) set" where
  "forwardMasked allFlows maskedSet =
     {(x, y). \<exists>f \<in> set allFlows. f_sourceRef f = x \<and> f_targetRef f = y \<and> y \<in> set maskedSet}"

definition specPreds :: "flow list \<Rightarrow> string option list \<Rightarrow> string option
    \<Rightarrow> string option set" where
  "specPreds allFlows maskedSet m =
     {s. s \<notin> set maskedSet \<and>
         (\<exists>u. (m, u) \<in> (backwardMasked allFlows maskedSet)\<^sup>* \<and>
              (\<exists>f \<in> set allFlows. f_targetRef f = u \<and> f_sourceRef f = s))}"

definition specSuccs :: "flow list \<Rightarrow> string option list \<Rightarrow> string option
    \<Rightarrow> string option set" where
  "specSuccs allFlows maskedSet m =
     {t. t \<notin> set maskedSet \<and>
         (\<exists>u. (m, u) \<in> (forwardMasked allFlows maskedSet)\<^sup>* \<and>
              (\<exists>f \<in> set allFlows. f_sourceRef f = u \<and> f_targetRef f = t))}"

text \<open>The same two notions over an arbitrary neighbour function, as the loop sees them.\<close>

definition interior :: "(string option \<Rightarrow> string option list) \<Rightarrow> string option list
    \<Rightarrow> (string option \<times> string option) set" where
  "interior nbrs M = {(u, v). v \<in> set (nbrs u) \<and> v \<in> set M}"

definition frontier :: "(string option \<Rightarrow> string option list) \<Rightarrow> string option list
    \<Rightarrow> string option \<Rightarrow> string option set" where
  "frontier nbrs M m =
     {s. s \<notin> set M \<and> (\<exists>u. (m, u) \<in> (interior nbrs M)\<^sup>* \<and> s \<in> set (nbrs u))}"


section \<open>Fragmentation\<close>

subsection \<open>The union-find structure\<close>

text \<open>
  \<^verbatim>\<open>unionFind(n)\<close> keeps the array \<^verbatim>\<open>parent\<close>, at first \<open>[0, \<dots>, n - 1]\<close>. \<^verbatim>\<open>find\<close>
  follows the parents to a root and, on the way back, points every node it met to that
  root; it returns the root and leaves the array changed. A walk that never reaches a
  root does not return: the value is \<open>None\<close>. The callers pass indices of the array
  only (they come from \<^verbatim>\<open>idToIdx\<close> and from \<^verbatim>\<open>parent.forEach\<close>); an index outside the
  array is outside the model, and its value is \<open>None\<close> as well.
\<close>

definition unionFind :: "nat \<Rightarrow> nat list" where
  "unionFind n = [0..<n]"

partial_function (option) uf_find :: "nat list \<Rightarrow> nat \<Rightarrow> (nat \<times> nat list) option" where
  "uf_find parent x =
     (if x < length parent
      then (if parent ! x = x then Some (x, parent)
            else do {
              (r, parent') \<leftarrow> uf_find parent (parent ! x);
              Some (r, parent'[x := r])
            })
      else None)"

declare uf_find.simps [code]

definition unite :: "nat list \<Rightarrow> nat \<Rightarrow> nat \<Rightarrow> nat list option" where
  "unite parent a b =
     do {
       (a', p1) \<leftarrow> uf_find parent a;
       (b', p2) \<leftarrow> uf_find p1 b;
       Some (if a' \<noteq> b' then p2[b' := a'] else p2)
     }"

text \<open>
  \<^verbatim>\<open>groups\<close>: the map \<^verbatim>\<open>g\<close> from root to members is kept as the list of its entries in
  insertion order, which is the order of \<^verbatim>\<open>g.values()\<close>.
\<close>

definition addMember :: "(nat \<times> nat list) list \<Rightarrow> nat \<Rightarrow> nat \<Rightarrow> (nat \<times> nat list) list" where
  "addMember g r i =
     (if r \<in> fst ` set g
      then map (\<lambda>e. if fst e = r then (fst e, snd e @ [i]) else e) g
      else g @ [(r, [i])])"

fun groupsLoop :: "nat list \<Rightarrow> (nat \<times> nat list) list \<Rightarrow> nat list
    \<Rightarrow> (nat list \<times> (nat \<times> nat list) list) option" where
  "groupsLoop parent g [] = Some (parent, g)"
| "groupsLoop parent g (i # rest) =
     do {
       (r, parent') \<leftarrow> uf_find parent i;
       groupsLoop parent' (addMember g r i) rest
     }"

definition ufGroups :: "nat list \<Rightarrow> nat list list option" where
  "ufGroups parent =
     do {
       (parent', g) \<leftarrow> groupsLoop parent [] [0..<length parent];
       Some (map snd g)
     }"

subsection \<open>The components\<close>

text \<open>
  \<^verbatim>\<open>idToIdx\<close>: a map built from the pairs of id and index in order, so that of two tasks
  with the same id the later one keeps the key. The key of a task without id is
  \<^verbatim>\<open>null\<close>, which is also what a flow without \<^verbatim>\<open>sourceRef\<close> or \<^verbatim>\<open>targetRef\<close> looks up.
\<close>

definition idToIdx :: "task list \<Rightarrow> string option \<Rightarrow> nat option" where
  "idToIdx ts = map_of (rev (zip (map t_id ts) [0..<length ts]))"

text \<open>The body of \<^verbatim>\<open>flows.forEach\<close>.\<close>

definition uniteFlow :: "jsnum \<Rightarrow> (string option \<Rightarrow> nat option) \<Rightarrow> nat list \<Rightarrow> flow
    \<Rightarrow> nat list option" where
  "uniteFlow threshold idx parent f =
     (case coupling f of
        None \<Rightarrow> Some parent
      | Some w \<Rightarrow>
          if \<not> js_ge w threshold then Some parent
          else (case (idx (f_sourceRef f), idx (f_targetRef f)) of
                  (Some a, Some b) \<Rightarrow> unite parent a b
                | _ \<Rightarrow> Some parent))"

fun uniteFlows :: "jsnum \<Rightarrow> (string option \<Rightarrow> nat option) \<Rightarrow> nat list \<Rightarrow> flow list
    \<Rightarrow> nat list option" where
  "uniteFlows threshold idx parent [] = Some parent"
| "uniteFlows threshold idx parent (f # fs) =
     do {
       parent' \<leftarrow> uniteFlow threshold idx parent f;
       uniteFlows threshold idx parent' fs
     }"

text \<open>
  The first part of \<^verbatim>\<open>fragmentByCoupling\<close>, up to the value of \<^verbatim>\<open>comps\<close> that the rest
  of the function turns into groups, one per component and in this order: the lists of
  task indices. The flows are all those below the process element.
\<close>

definition fragmentComps :: "document \<Rightarrow> jsnum \<Rightarrow> bool \<Rightarrow> nat list list option" where
  "fragmentComps d threshold includeSingletons =
     do {
       parent \<leftarrow> uniteFlows threshold (idToIdx (tasks d)) (unionFind (length (tasks d))) (flows d);
       comps \<leftarrow> ufGroups parent;
       Some (if \<not> includeSingletons then filter (\<lambda>g. length g > 1) comps else comps)
     }"


subsection \<open>The groups written to the document\<close>

text \<open>\<^verbatim>\<open>fragId\<close> for the component of ordinal \<open>idx\<close>.\<close>

definition fragId :: "nat \<Rightarrow> string" where
  "fragId idx = ''Fragment_'' @ showNat (idx + 1)"

text \<open>
  The body of \<^verbatim>\<open>comps.forEach\<close>, for the component \<open>indices\<close> of ordinal \<open>idx\<close>: the group,
  its shape, one association per member, and (\<^verbatim>\<open>addTextAnnotationForGroup\<close>) the
  annotation with its association, its shape and, when the shape of the group is found,
  the edge of that association. Geometry, labels and the category values are left out:
  nothing the statements below speak of reads them. The indices are those of
  \<^verbatim>\<open>groups\<close>, all inside the task list.
\<close>

definition materialize :: "document \<Rightarrow> nat list \<times> nat \<Rightarrow> document" where
  "materialize d ci =
     (let indices = fst ci;
          gid = fragId (snd ci);
          memberIds = map (\<lambda>i. t_id (tasks d ! i)) indices;
          taId = gid @ ''_TA'';
          d1 = d\<lparr>groups := groups d @ [\<lparr>g_id = Some gid, g_fragmentId = Some gid\<rparr>]\<rparr>;
          d2 = d1\<lparr>shapes := shapes d1 @
                 [\<lparr>s_id = Some (gid @ ''_di''), s_bpmnElement = Some gid, s_hasBounds = True\<rparr>]\<rparr>;
          d3 = d2\<lparr>associations := associations d2 @
                 map (\<lambda>mid. \<lparr>a_id = Some (gid @ ''_A_'' @ str mid), a_sourceRef = Some gid,
                              a_targetRef = Some (str mid)\<rparr>) memberIds\<rparr>;
          d4 = d3\<lparr>annotations := annotations d3 @ [Some taId]\<rparr>;
          d5 = d4\<lparr>associations := associations d4 @
                 [\<lparr>a_id = Some (gid @ ''_TA_Assoc''), a_sourceRef = Some taId,
                   a_targetRef = Some gid\<rparr>]\<rparr>;
          d6 = d5\<lparr>shapes := shapes d5 @
                 [\<lparr>s_id = Some (taId @ ''_di''), s_bpmnElement = Some taId, s_hasBounds = True\<rparr>]\<rparr>
      in if boundsOf d6 (Some gid) \<noteq> None
         then d6\<lparr>edges := edges d6 @
                [\<lparr>e_id = Some (gid @ ''_TA_Assoc_di''),
                  e_bpmnElement = Some (gid @ ''_TA_Assoc'')\<rparr>]\<rparr>
         else d6)"

text \<open>\<^verbatim>\<open>fragmentByCoupling\<close>: the count it returns and the document it leaves.\<close>

definition fragmentByCoupling :: "document \<Rightarrow> jsnum \<Rightarrow> bool \<Rightarrow> (nat \<times> document) option" where
  "fragmentByCoupling d threshold includeSingletons =
     do {
       comps \<leftarrow> fragmentComps d threshold includeSingletons;
       Some (length comps, foldl materialize (ensurePlane d) (zip comps [0..<length comps]))
     }"


section \<open>Notions used in the statements about masking\<close>

text \<open>
  The candidate pairs of one synthesis pass, in the order the three nested loops visit
  them; a pair is settled in a state when the loop body would leave the state as it is;
  and the removal rounds alone, without the synthesis pass that precedes each.
\<close>

definition candidates :: "flow list \<Rightarrow> string option list
    \<Rightarrow> (string option \<times> string option) list" where
  "candidates allFlows masked =
     concat (map (\<lambda>mid. List.product (fst (collectBoundaryNeighbors mid allFlows masked))
                                     (snd (collectBoundaryNeighbors mid allFlows masked))) masked)"

definition settled :: "mstate \<Rightarrow> string option \<times> string option \<Rightarrow> bool" where
  "settled st c =
     (fst c = snd c \<or> pairKey (fst c) (snd c) \<in> set (autoFlowPairs st)
      \<or> existingFlow (mdoc st) (fst c) (snd c) \<noteq> None)"

fun exciseLoop :: "flow list \<Rightarrow> task list \<Rightarrow> string option list \<Rightarrow> mstate
    \<Rightarrow> string option list \<Rightarrow> mstate" where
  "exciseLoop allFlows tasks0 seen st [] = st"
| "exciseLoop allFlows tasks0 seen st (mid # rest) =
     exciseLoop allFlows tasks0 (mid # seen) (excise allFlows tasks0 (mid \<in> set seen) st mid) rest"

text \<open>
  Two conditions on the documents. \<open>refsPresent\<close>: each of the flows carries both a
  \<^verbatim>\<open>sourceRef\<close> and a \<^verbatim>\<open>targetRef\<close> attribute. \<open>queryable\<close>: no text that a masking run
  may interpolate into a query (an id of a task, an id or a reference of a process-level
  flow or of an association) holds a double quote.
\<close>

definition refsPresent :: "flow list \<Rightarrow> bool" where
  "refsPresent fs = list_all (\<lambda>f. f_sourceRef f \<noteq> None \<and> f_targetRef f \<noteq> None) fs"

definition queryable :: "document \<Rightarrow> bool" where
  "queryable d =
     (list_all (\<lambda>t. plain (t_id t)) (tasks d)
      \<and> list_all (\<lambda>f. plain (f_id f) \<and> plain (f_sourceRef f) \<and> plain (f_targetRef f))
          (filter direct (flows d))
      \<and> list_all (\<lambda>a. plain (a_id a) \<and> plain (a_sourceRef a) \<and> plain (a_targetRef a))
          (associations d))"

text \<open>
  What holds of a state while only the synthesis has run on the document \<open>d0\<close>: nothing
  is removed, the new flows stand after the old ones, and the keys in
  \<^verbatim>\<open>autoFlowPairs\<close> are those of the flows created, each once. \<open>keysInv\<close> is the part
  about the keys, which the removal rounds keep as well.
\<close>

definition keysInv :: "mstate \<Rightarrow> bool" where
  "keysInv st =
     (map (\<lambda>f. pairKey (f_sourceRef f) (f_targetRef f)) (created st) = rev (autoFlowPairs st)
      \<and> distinct (autoFlowPairs st)
      \<and> list_all (\<lambda>f. direct f \<and> f_sourceRef f \<noteq> None \<and> f_targetRef f \<noteq> None) (created st))"

definition synthInv :: "document \<Rightarrow> mstate \<Rightarrow> bool" where
  "synthInv d0 st =
     (flows (mdoc st) = flows d0 @ created st
      \<and> tasks (mdoc st) = tasks d0
      \<and> associations (mdoc st) = associations d0
      \<and> annotations (mdoc st) = annotations d0
      \<and> groups (mdoc st) = groups d0
      \<and> shapes (mdoc st) = shapes d0
      \<and> planeExists (mdoc st) = planeExists d0
      \<and> (\<exists>es. edges (mdoc st) = edges d0 @ es)
      \<and> removedFlowIds st = []
      \<and> trace st = map Created (created st)
      \<and> counter st = length (created st)
      \<and> keysInv st
      \<and> list_all (\<lambda>f. existingFlow d0 (f_sourceRef f) (f_targetRef f) = None) (created st))"


text \<open>
  \<open>deletesOnly st st'\<close>: on the way from \<open>st\<close> to \<open>st'\<close> the run has recorded deletions
  and nothing else.
\<close>

definition deletesOnly :: "mstate \<Rightarrow> mstate \<Rightarrow> bool" where
  "deletesOnly st st' =
     (\<exists>ds. trace st' = trace st @ ds \<and> list_all (\<lambda>e. \<not> isCreated e) ds)"




text \<open>
  A path along the flows \<open>fs\<close>: each node of the list is joined to the next by a flow.
\<close>

fun flowPath :: "flow list \<Rightarrow> string option list \<Rightarrow> bool" where
  "flowPath fs (x # y # rest) =
     ((\<exists>f \<in> set fs. f_sourceRef f = x \<and> f_targetRef f = y) \<and> flowPath fs (y # rest))"
| "flowPath fs _ = True"


section \<open>Notions used in the statements about fragmentation\<close>

text \<open>
  \<open>is_root p i r\<close>: following the parents from \<open>i\<close> in the array \<open>p\<close> ends at the root \<open>r\<close>.
  \<open>ranked rk p\<close>: every parent is an index of the array, and \<open>rk\<close> falls along every
  step to a parent, so that no walk goes in a circle. \<open>compressed p p'\<close>: \<open>p'\<close> is \<open>p\<close>
  with some nodes pointed to their own roots. \<open>conn E\<close>: joined by a path of edges of
  \<open>E\<close>, taken in either direction.
\<close>

inductive is_root :: "nat list \<Rightarrow> nat \<Rightarrow> nat \<Rightarrow> bool" for p :: "nat list" where
  root: "p ! i = i \<Longrightarrow> is_root p i i"
| step: "p ! i \<noteq> i \<Longrightarrow> is_root p (p ! i) r \<Longrightarrow> is_root p i r"

definition ranked :: "(nat \<Rightarrow> nat) \<Rightarrow> nat list \<Rightarrow> bool" where
  "ranked rk p = (\<forall>i < length p. p ! i < length p \<and> (p ! i \<noteq> i \<longrightarrow> rk (p ! i) < rk i))"

definition compressed :: "nat list \<Rightarrow> nat list \<Rightarrow> bool" where
  "compressed p p' =
     (length p' = length p \<and> (\<forall>j < length p. p' ! j = p ! j \<or> is_root p j (p' ! j)))"

definition conn :: "(nat \<times> nat) set \<Rightarrow> (nat \<times> nat) set" where
  "conn E = (E \<union> E\<inverse>)\<^sup>*"


text \<open>
  \<open>rootOf p i\<close> is the root of \<open>i\<close>; \<open>groupBy \<rho> is\<close> is the list of entries that
  \<^verbatim>\<open>groups\<close> builds when the root of every index \<open>i\<close> is \<open>\<rho> i\<close>; \<open>grouped \<rho> done g\<close>
  says that \<open>g\<close> holds, under distinct keys, the indices of \<open>done\<close> by their \<open>\<rho>\<close>, in
  order; \<open>edgesOf\<close> are the pairs of indices that the loop over the flows unites.
\<close>

definition rootOf :: "nat list \<Rightarrow> nat \<Rightarrow> nat" where
  "rootOf p i = (THE r. is_root p i r)"

definition groupBy :: "(nat \<Rightarrow> nat) \<Rightarrow> nat list \<Rightarrow> (nat \<times> nat list) list" where
  "groupBy \<rho> is = foldl (\<lambda>g i. addMember g (\<rho> i) i) [] is"

definition grouped :: "(nat \<Rightarrow> nat) \<Rightarrow> nat list \<Rightarrow> (nat \<times> nat list) list \<Rightarrow> bool" where
  "grouped \<rho> done g =
     (distinct (map fst g)
      \<and> (\<forall>e \<in> set g. snd e = filter (\<lambda>i. \<rho> i = fst e) done \<and> snd e \<noteq> [])
      \<and> fst ` set g = \<rho> ` set done)"

definition edgesOf :: "jsnum \<Rightarrow> (string option \<Rightarrow> nat option) \<Rightarrow> flow list \<Rightarrow> (nat \<times> nat) set" where
  "edgesOf threshold idx fs =
     {(a, b). \<exists>f \<in> set fs. (\<exists>w. coupling f = Some w \<and> js_ge w threshold)
        \<and> idx (f_sourceRef f) = Some a \<and> idx (f_targetRef f) = Some b}"

text \<open>
  The graph of the specification: the activities, by their index, and an edge for every
  flow of weight at least the threshold whose \<^verbatim>\<open>sourceRef\<close> is the id of the one and
  whose \<^verbatim>\<open>targetRef\<close> is the id of the other. A reference that is absent refers to no
  activity, and an activity without id is referred to by no flow.
\<close>

definition strongEdges :: "document \<Rightarrow> jsnum \<Rightarrow> (nat \<times> nat) set" where
  "strongEdges d threshold =
     {(i, j). i < length (tasks d) \<and> j < length (tasks d)
        \<and> (\<exists>f \<in> set (flows d). (\<exists>w. coupling f = Some w \<and> js_ge w threshold)
              \<and> (\<exists>s. f_sourceRef f = Some s \<and> t_id (tasks d ! i) = Some s)
              \<and> (\<exists>t. f_targetRef f = Some t \<and> t_id (tasks d ! j) = Some t))}"


text \<open>
  What the loop over the flows keeps: the array has \<open>n\<close> entries and no circle, and two
  indices have the same root exactly when the edges \<open>E\<close> united so far connect them.
\<close>

definition ufInv :: "nat \<Rightarrow> (nat \<times> nat) set \<Rightarrow> nat list \<Rightarrow> bool" where
  "ufInv n E p =
     ((\<exists>rk. ranked rk p) \<and> length p = n
      \<and> (\<forall>i < n. \<forall>j < n. (rootOf p i = rootOf p j) = ((i, j) \<in> conn E)))"

text \<open>
  The elements that \<^verbatim>\<open>fragmentByCoupling\<close> writes for the component of ordinal \<open>k\<close>: its
  group, the association that joins the group to a member, and the association of its
  note.
\<close>

definition groupOf :: "nat \<Rightarrow> group" where
  "groupOf k = \<lparr>g_id = Some (fragId k), g_fragmentId = Some (fragId k)\<rparr>"

definition memberAssoc :: "nat \<Rightarrow> string option \<Rightarrow> assoc" where
  "memberAssoc k mid =
     \<lparr>a_id = Some (fragId k @ ''_A_'' @ str mid), a_sourceRef = Some (fragId k),
      a_targetRef = Some (str mid)\<rparr>"

definition noteAssoc :: "nat \<Rightarrow> assoc" where
  "noteAssoc k =
     \<lparr>a_id = Some (fragId k @ ''_TA_Assoc''), a_sourceRef = Some (fragId k @ ''_TA''),
      a_targetRef = Some (fragId k)\<rparr>"


section \<open>Example documents\<close>

definition mkTask :: "string \<Rightarrow> jsnum \<Rightarrow> task" where
  "mkTask i p = \<lparr>t_id = Some i, privacy = p\<rparr>"

definition mkFlow :: "string \<Rightarrow> string \<Rightarrow> string \<Rightarrow> flow" where
  "mkFlow i s t =
     \<lparr>f_id = Some i, f_sourceRef = Some s, f_targetRef = Some t, coupling = None, direct = True\<rparr>"

definition mkShape :: "string \<Rightarrow> shape" where
  "mkShape el = \<lparr>s_id = Some (el @ ''_di''), s_bpmnElement = Some el, s_hasBounds = True\<rparr>"

definition mkEdge :: "string \<Rightarrow> edge" where
  "mkEdge el = \<lparr>e_id = Some (el @ ''_di''), e_bpmnElement = Some el\<rparr>"

definition mkAssoc :: "string \<Rightarrow> string \<Rightarrow> string \<Rightarrow> assoc" where
  "mkAssoc i s t = \<lparr>a_id = Some i, a_sourceRef = Some s, a_targetRef = Some t\<rparr>"

text \<open>
  \<open>fragmentedDoc\<close> is what fragmentation leaves of a process with the single task
  \<open>T\<close>: the group \<open>Fragment_1\<close>, its shape, the association to its member, and the
  annotation \<open>Fragment_1_TA\<close> with its association, shape and edge.
\<close>

definition fragmentedDoc :: document where
  "fragmentedDoc =
     \<lparr>tasks = [mkTask ''T'' NaN],
      flows = [],
      associations =
        [mkAssoc ''Fragment_1_A_T'' ''Fragment_1'' ''T'',
         mkAssoc ''Fragment_1_TA_Assoc'' ''Fragment_1_TA'' ''Fragment_1''],
      annotations = [Some ''Fragment_1_TA''],
      groups = [\<lparr>g_id = Some ''Fragment_1'', g_fragmentId = Some ''Fragment_1''\<rparr>],
      planeExists = True,
      shapes = [mkShape ''T'', mkShape ''Fragment_1'', mkShape ''Fragment_1_TA''],
      edges = [mkEdge ''Fragment_1_TA_Assoc'']\<rparr>"

text \<open>
  \<open>chainDoc\<close> is the chain \<open>A \<rightarrow> M1 \<rightarrow> M2 \<rightarrow> B\<close> with privacy 0.9 on \<open>M1\<close> and \<open>M2\<close>, a
  note attached to \<open>M1\<close>, and shapes for \<open>A\<close>, \<open>B\<close> and \<open>M1\<close>.
\<close>

definition chainDoc :: document where
  "chainDoc =
     \<lparr>tasks = [mkTask ''A'' NaN, mkTask ''M1'' (Num (9/10)), mkTask ''M2'' (Num (9/10)),
               mkTask ''B'' NaN],
      flows = [mkFlow ''f1'' ''A'' ''M1'', mkFlow ''f2'' ''M1'' ''M2'', mkFlow ''f3'' ''M2'' ''B''],
      associations = [mkAssoc ''as1'' ''note'' ''M1''],
      annotations = [Some ''note''],
      groups = [],
      planeExists = True,
      shapes = [mkShape ''A'', mkShape ''B'', mkShape ''M1''],
      edges = [mkEdge ''f1'']\<rparr>"

text \<open>
  \<open>shortcutDoc\<close> is \<open>chainDoc\<close> with a process-level flow \<open>A \<rightarrow> B\<close> added;
  \<open>nestedShortcutDoc\<close> is \<open>chainDoc\<close> with a flow \<open>A \<rightarrow> B\<close> that lies deeper than the
  process element; in \<open>nestedChainDoc\<close> the masked task \<open>M\<close> stands between \<open>A\<close> and \<open>B\<close>
  on two flows that both lie deeper than the process element.
\<close>

definition shortcutDoc :: document where
  "shortcutDoc = chainDoc\<lparr>flows := flows chainDoc @ [mkFlow ''f4'' ''A'' ''B'']\<rparr>"

definition nestedShortcutDoc :: document where
  "nestedShortcutDoc =
     chainDoc\<lparr>flows := flows chainDoc @ [(mkFlow ''n1'' ''A'' ''B'')\<lparr>direct := False\<rparr>]\<rparr>"

definition nestedChainDoc :: document where
  "nestedChainDoc =
     \<lparr>tasks = [mkTask ''A'' NaN, mkTask ''M'' (Num (9/10)), mkTask ''B'' NaN],
      flows = [(mkFlow ''n1'' ''A'' ''M'')\<lparr>direct := False\<rparr>,
               (mkFlow ''n2'' ''M'' ''B'')\<lparr>direct := False\<rparr>],
      associations = [], annotations = [], groups = [], planeExists = True,
      shapes = [], edges = []\<rparr>"

text \<open>
  \<open>collisionDoc\<close>: the masked task \<open>M\<close> between two sources and two targets whose ids
  hold the separator of the pair keys, so that the pairs (\<open>a\<close>, \<open>\<rightarrow>b\<close>) and (\<open>a\<rightarrow>\<close>, \<open>b\<close>) have
  the same key.
\<close>

definition collisionDoc :: document where
  "collisionDoc =
     \<lparr>tasks = [mkTask ''a'' NaN, mkTask (''a'' @ arrow) NaN, mkTask ''M'' (Num (9/10)),
               mkTask (arrow @ ''b'') NaN, mkTask ''b'' NaN],
      flows = [mkFlow ''f1'' ''a'' ''M'', mkFlow ''f2'' (''a'' @ arrow) ''M'',
               mkFlow ''f3'' ''M'' (arrow @ ''b''), mkFlow ''f4'' ''M'' ''b''],
      associations = [], annotations = [], groups = [], planeExists = True,
      shapes = [], edges = []\<rparr>"

text \<open>
  Documents with a flow that lacks its \<^verbatim>\<open>sourceRef\<close>, the flow \<open>f1\<close> into the masked
  task \<open>M\<close>. In \<open>nullLoopDoc\<close> the flow out of \<open>M\<close> ends at a task whose id is the word
  \<open>null\<close>. In \<open>nullDoc\<close> a second masked task has that id. \<open>lateDoc\<close> is \<open>nullDoc\<close> with a
  flow \<open>e\<close> from the task \<open>null\<close> to \<open>B\<close>.
\<close>

definition noSourceFlow :: "string \<Rightarrow> string \<Rightarrow> flow" where
  "noSourceFlow i t =
     \<lparr>f_id = Some i, f_sourceRef = None, f_targetRef = Some t, coupling = None, direct = True\<rparr>"

definition nullLoopDoc :: document where
  "nullLoopDoc =
     \<lparr>tasks = [mkTask ''M'' (Num (9/10)), mkTask ''null'' NaN],
      flows = [noSourceFlow ''f1'' ''M'', mkFlow ''f2'' ''M'' ''null''],
      associations = [], annotations = [], groups = [], planeExists = True,
      shapes = [], edges = []\<rparr>"

definition nullDoc :: document where
  "nullDoc =
     \<lparr>tasks = [mkTask ''null'' (Num (9/10)), mkTask ''M'' (Num (9/10)), mkTask ''B'' NaN],
      flows = [noSourceFlow ''f1'' ''M'', mkFlow ''f2'' ''M'' ''B''],
      associations = [], annotations = [], groups = [], planeExists = True,
      shapes = [], edges = []\<rparr>"

definition lateDoc :: document where
  "lateDoc = nullDoc\<lparr>flows := flows nullDoc @ [mkFlow ''e'' ''null'' ''B'']\<rparr>"



text \<open>
  \<open>fiveDoc\<close>: the tasks \<open>A\<close> to \<open>E\<close> in a chain, every flow of coupling 0.9 but the one
  from \<open>C\<close> to \<open>D\<close>, of coupling 0.5. \<open>twinDoc\<close>: two tasks of the same id \<open>A\<close> and a task
  \<open>B\<close>, with a flow of coupling 0.9 from \<open>A\<close> to \<open>B\<close>. \<open>anonymousDoc\<close>: a task without id
  and a task \<open>B\<close>, with a flow of coupling 0.9 that ends at \<open>B\<close> and has no \<^verbatim>\<open>sourceRef\<close>.
\<close>

definition mkW :: "string \<Rightarrow> string \<Rightarrow> string \<Rightarrow> rat \<Rightarrow> flow" where
  "mkW i s t w = (mkFlow i s t)\<lparr>coupling := Some (Num w)\<rparr>"

definition fiveDoc :: document where
  "fiveDoc =
     \<lparr>tasks = [mkTask ''A'' NaN, mkTask ''B'' NaN, mkTask ''C'' NaN, mkTask ''D'' NaN,
               mkTask ''E'' NaN],
      flows = [mkW ''f1'' ''A'' ''B'' (9/10), mkW ''f2'' ''B'' ''C'' (9/10),
               mkW ''f3'' ''C'' ''D'' (1/2), mkW ''f4'' ''D'' ''E'' (9/10)],
      associations = [], annotations = [], groups = [], planeExists = True,
      shapes = [], edges = []\<rparr>"

definition twinDoc :: document where
  "twinDoc =
     \<lparr>tasks = [mkTask ''A'' NaN, mkTask ''A'' NaN, mkTask ''B'' NaN],
      flows = [mkW ''f1'' ''A'' ''B'' (9/10)],
      associations = [], annotations = [], groups = [], planeExists = True,
      shapes = [], edges = []\<rparr>"

definition anonymousDoc :: document where
  "anonymousDoc =
     \<lparr>tasks = [\<lparr>t_id = None, privacy = NaN\<rparr>, mkTask ''B'' NaN],
      flows = [(noSourceFlow ''f1'' ''B'')\<lparr>coupling := Some (Num (9/10))\<rparr>],
      associations = [], annotations = [], groups = [], planeExists = True,
      shapes = [], edges = []\<rparr>"

text \<open>\<open>oneTaskDoc\<close>: a process with the single task \<open>T\<close> and its shape.\<close>

definition oneTaskDoc :: document where
  "oneTaskDoc =
     \<lparr>tasks = [mkTask ''T'' NaN], flows = [], associations = [], annotations = [],
      groups = [], planeExists = True, shapes = [mkShape ''T''], edges = []\<rparr>"

text \<open>\<open>noPlaneDoc\<close>: a process with one task, in a file without diagram.\<close>

definition noPlaneDoc :: document where
  "noPlaneDoc =
     \<lparr>tasks = [mkTask ''A'' NaN], flows = [], associations = [], annotations = [],
      groups = [], planeExists = False, shapes = [], edges = []\<rparr>"


section \<open>Values and records of steps\<close>

lemma str_simps [simp]: "str (Some s) = s" "str None = ''null''"
  by (simp_all add: str_def)

lemma orEmpty_simps [simp]: "orEmpty (Some s) = s" "orEmpty None = []"
  by (simp_all add: orEmpty_def)

lemma falsy_simps [simp]: "falsy None" "falsy (Some s) = (s = [])"
  by (simp_all add: falsy_def)

lemma createdIn_append [simp]: "createdIn (xs @ ys) = createdIn xs @ createdIn ys"
  by (induction xs rule: createdIn.induct) simp_all

lemma createdIn_Created [simp]: "createdIn (map Created fs) = fs"
  by (induction fs) simp_all

lemma createdIn_none: "list_all (\<lambda>e. \<not> isCreated e) es \<Longrightarrow> createdIn es = []"
  by (induction es rule: createdIn.induct) simp_all

lemma deleted_not_created: "list_all (\<lambda>e. \<not> isCreated e) (deleted d d')"
  by (simp add: deleted_def list_all_iff) auto

lemma createdIn_deleted [simp]: "createdIn (deleted d d') = []"
  by (rule createdIn_none) (rule deleted_not_created)

lemma created_update [simp]:
  "created (st\<lparr>mdoc := d\<rparr>) = created st"
  "created (st\<lparr>counter := c\<rparr>) = created st"
  "created (st\<lparr>removedFlowIds := r\<rparr>) = created st"
  "created (st\<lparr>autoFlowPairs := k\<rparr>) = created st"
  "created (st\<lparr>trace := t\<rparr>) = createdIn t"
  by (simp_all add: created_def)

section \<open>The cleanup pass: properties\<close>

text \<open>
  C7. The cleanup pass is idempotent: run twice in a row, it leaves the document that
  one run leaves.
\<close>

theorem clearOldFragments_idempotent:
  "clearOldFragments (clearOldFragments d) = clearOldFragments d"
  by (simp add: clearOldFragments_def ensurePlane_def Let_def)

theorem clearOldFragments_idempotent_witness:
  "clearOldFragments (clearOldFragments fragmentedDoc) = clearOldFragments fragmentedDoc
   \<and> groups (clearOldFragments fragmentedDoc) = []
   \<and> associations (clearOldFragments fragmentedDoc) = []"
  using clearOldFragments_idempotent [of fragmentedDoc]
  by (simp add: clearOldFragments_def ensurePlane_def Let_def fragmentedDoc_def
      isOldGroup_def fragmentPrefix_def mkAssoc_def)

lemma fragmentedDoc_origin:
  "fragmentByCoupling oneTaskDoc (Num (7/10)) True = Some (1, fragmentedDoc)"
  by code_simp

text \<open>
  C6, evaluated on \<open>fragmentedDoc\<close>, the document that fragmentation leaves of a
  process with one task. The cleanup pass detaches the two associations of the old
  fragment by hand, without the cascade of \<^verbatim>\<open>removeAssociationCascade\<close>: the annotation
  \<open>Fragment_1_TA\<close> stays, with no association referencing it. Removing the associations
  of the group through the cascade, as masking does, takes the annotation with them.
\<close>

theorem clearOldFragments_leaves_orphan:
  "fragmentByCoupling oneTaskDoc (Num (7/10)) True = Some (1, fragmentedDoc)
   \<and> Some ''Fragment_1_TA'' \<in> set (annotations (clearOldFragments fragmentedDoc))
   \<and> countAssociationsTouching (clearOldFragments fragmentedDoc) (Some ''Fragment_1_TA'') = 0
   \<and> Some ''Fragment_1_TA''
       \<notin> set (annotations (removeAllAssociationsTouchingId fragmentedDoc (Some ''Fragment_1'')))"
proof -
  have "Some ''Fragment_1_TA'' \<in> set (annotations (clearOldFragments fragmentedDoc))
   \<and> countAssociationsTouching (clearOldFragments fragmentedDoc) (Some ''Fragment_1_TA'') = 0
   \<and> Some ''Fragment_1_TA''
       \<notin> set (annotations (removeAllAssociationsTouchingId fragmentedDoc (Some ''Fragment_1'')))"
    by (simp add: clearOldFragments_def ensurePlane_def Let_def fragmentedDoc_def
        isOldGroup_def fragmentPrefix_def countAssociationsTouching_def touches_def
        removeAllAssociationsTouchingId_def removeAssociationCascade_def
        removeDIEdgeForElement_def maybeRemoveTextAnnotationIfOrphaned_def
        removeDIShapeForElement_def mkAssoc_def mkShape_def mkEdge_def mkTask_def)
  then show ?thesis by (rule conjI [OF fragmentedDoc_origin])
qed

section \<open>Masking: properties\<close>

subsection \<open>The boundary resolver\<close>

lemma visit_fold_sets:
  "foldl (visit M) (q, seen, acc) ns = (q', seen', acc') \<Longrightarrow>
   set seen' = set seen \<union> (set ns \<inter> set M)
   \<and> set q' = set q \<union> ((set ns \<inter> set M) - set seen)
   \<and> set acc' = set acc \<union> (set ns - set M)"
proof (induction ns arbitrary: q seen acc)
  case Nil
  then show ?case by simp
next
  case (Cons n ns)
  obtain q1 seen1 acc1 where v: "visit M (q, seen, acc) n = (q1, seen1, acc1)"
    by (cases "visit M (q, seen, acc) n") blast
  from Cons.prems v have "foldl (visit M) (q1, seen1, acc1) ns = (q', seen', acc')"
    by simp
  from Cons.IH [OF this] v show ?case
    by (auto split: if_splits)
qed

lemma visit_fold_distinct:
  "foldl (visit M) (q, seen, acc) ns = (q', seen', acc') \<Longrightarrow> distinct acc \<Longrightarrow> distinct acc'"
proof (induction ns arbitrary: q seen acc)
  case Nil
  then show ?case by simp
next
  case (Cons n ns)
  obtain q1 seen1 acc1 where v: "visit M (q, seen, acc) n = (q1, seen1, acc1)"
    by (cases "visit M (q, seen, acc) n") blast
  from Cons.prems v have f: "foldl (visit M) (q1, seen1, acc1) ns = (q', seen', acc')"
    by simp
  from v Cons.prems(2) have "distinct acc1" by (auto split: if_splits)
  from Cons.IH [OF f this] show ?case .
qed

lemma bfsLoop_invariant:
  assumes "m \<in> set seen"
    and "set seen \<subseteq> (interior nbrs M)\<^sup>* `` {m}"
    and "set q \<subseteq> set seen"
    and "\<forall>u \<in> set seen - set q. \<forall>v \<in> set (nbrs u).
           (v \<in> set M \<longrightarrow> v \<in> set seen) \<and> (v \<notin> set M \<longrightarrow> v \<in> set acc)"
    and "set acc \<subseteq> frontier nbrs M m"
  shows "set (bfsLoop nbrs M q seen acc) = frontier nbrs M m"
  using assms
proof (induction nbrs M q seen acc rule: bfsLoop.induct)
  case (1 nbrs M seen acc)
  have closed: "u \<in> set seen" if "(m, u) \<in> (interior nbrs M)\<^sup>*" for u
    using that
  proof (induction rule: rtrancl_induct)
    case base
    then show ?case using "1.prems"(1) .
  next
    case (step y z)
    then show ?case using "1.prems"(4) by (auto simp: interior_def)
  qed
  have "frontier nbrs M m \<subseteq> set acc"
    using closed "1.prems"(4) by (auto simp: frontier_def)
  with "1.prems"(5) show ?case by auto
next
  case (2 nbrs M cur q seen acc)
  obtain q' seen' acc' where f: "foldl (visit M) (q, seen, acc) (nbrs cur) = (q', seen', acc')"
    by (cases "foldl (visit M) (q, seen, acc) (nbrs cur)") blast
  note s = visit_fold_sets [OF f]
  have cur: "(m, cur) \<in> (interior nbrs M)\<^sup>*"
    using "2.prems"(2,3) by auto
  have a1: "m \<in> set seen'" using s "2.prems"(1) by simp
  have a2: "set seen' \<subseteq> (interior nbrs M)\<^sup>* `` {m}"
  proof
    fix v assume "v \<in> set seen'"
    then consider "v \<in> set seen" | "v \<in> set (nbrs cur)" "v \<in> set M" using s by auto
    then show "v \<in> (interior nbrs M)\<^sup>* `` {m}"
    proof cases
      case 1
      then show ?thesis using "2.prems"(2) by auto
    next
      case 2
      then have "(cur, v) \<in> interior nbrs M" by (simp add: interior_def)
      with cur have "(m, v) \<in> (interior nbrs M)\<^sup>*" by (rule rtrancl_into_rtrancl)
      then show ?thesis by simp
    qed
  qed
  have a3: "set q' \<subseteq> set seen'" using s "2.prems"(3) by auto
  have a4: "\<forall>u \<in> set seen' - set q'. \<forall>v \<in> set (nbrs u).
           (v \<in> set M \<longrightarrow> v \<in> set seen') \<and> (v \<notin> set M \<longrightarrow> v \<in> set acc')"
  proof (intro ballI)
    fix u v assume u: "u \<in> set seen' - set q'" and v: "v \<in> set (nbrs u)"
    from u s have useen: "u \<in> set seen" by auto
    from u s have unq: "u \<notin> set q" by auto
    show "(v \<in> set M \<longrightarrow> v \<in> set seen') \<and> (v \<notin> set M \<longrightarrow> v \<in> set acc')"
    proof (cases "u = cur")
      case True
      then show ?thesis using v s by auto
    next
      case False
      with useen unq have "u \<in> set seen - set (cur # q)" by simp
      with "2.prems"(4) v have "(v \<in> set M \<longrightarrow> v \<in> set seen) \<and> (v \<notin> set M \<longrightarrow> v \<in> set acc)"
        by blast
      then show ?thesis using s by auto
    qed
  qed
  have a5: "set acc' \<subseteq> frontier nbrs M m"
  proof
    fix x assume "x \<in> set acc'"
    then consider "x \<in> set acc" | "x \<in> set (nbrs cur)" "x \<notin> set M" using s by auto
    then show "x \<in> frontier nbrs M m"
    proof cases
      case 1
      then show ?thesis using "2.prems"(5) by auto
    next
      case 2
      then show ?thesis using cur by (auto simp: frontier_def)
    qed
  qed
  have "set (bfsLoop nbrs M q' seen' acc') = frontier nbrs M m"
    using "2.IH" [OF f [symmetric] refl a1 a2 a3 a4 a5] .
  then show ?case using f by simp
qed

lemma bfsLoop_distinct:
  "distinct acc \<Longrightarrow> distinct (bfsLoop nbrs M q seen acc)"
proof (induction nbrs M q seen acc rule: bfsLoop.induct)
  case (1 nbrs M seen acc)
  then show ?case by simp
next
  case (2 nbrs M cur q seen acc)
  obtain q' seen' acc' where f: "foldl (visit M) (q, seen, acc) (nbrs cur) = (q', seen', acc')"
    by (cases "foldl (visit M) (q, seen, acc) (nbrs cur)") blast
  have "distinct acc'" using visit_fold_distinct [OF f "2.prems"] .
  from "2.IH" [OF f [symmetric] refl this] show ?case using f by simp
qed

lemma bfsLoop_frontier:
  "set (bfsLoop nbrs M [m] [m] []) = frontier nbrs M m"
  by (rule bfsLoop_invariant) simp_all

lemma interior_up:
  "interior (\<lambda>cur. map f_sourceRef (flowsByTarget allFlows cur)) M = backwardMasked allFlows M"
  by (auto simp: interior_def backwardMasked_def flowsByTarget_def)

lemma interior_down:
  "interior (\<lambda>cur. map f_targetRef (flowsBySource allFlows cur)) M = forwardMasked allFlows M"
  by (auto simp: interior_def forwardMasked_def flowsBySource_def)

lemma preds_spec:
  "set (fst (collectBoundaryNeighbors m allFlows M)) = specPreds allFlows M m"
proof -
  have "set (fst (collectBoundaryNeighbors m allFlows M))
      = frontier (\<lambda>cur. map f_sourceRef (flowsByTarget allFlows cur)) M m"
    unfolding collectBoundaryNeighbors_def fst_conv by (rule bfsLoop_frontier)
  also have "\<dots> = specPreds allFlows M m"
    unfolding frontier_def specPreds_def interior_up
    by (auto simp: flowsByTarget_def)
  finally show ?thesis .
qed

lemma succs_spec:
  "set (snd (collectBoundaryNeighbors m allFlows M)) = specSuccs allFlows M m"
proof -
  have "set (snd (collectBoundaryNeighbors m allFlows M))
      = frontier (\<lambda>cur. map f_targetRef (flowsBySource allFlows cur)) M m"
    unfolding collectBoundaryNeighbors_def snd_conv by (rule bfsLoop_frontier)
  also have "\<dots> = specSuccs allFlows M m"
    unfolding frontier_def specSuccs_def interior_down
    by (auto simp: flowsBySource_def)
  finally show ?thesis .
qed

text \<open>
  C5. For every node \<open>m\<close> (a masked one in particular) the resolver returns, without
  repetition, exactly the unmasked nodes met by walking the incoming flows backward
  from \<open>m\<close> through masked nodes only, and symmetrically forward; a side on which no
  unmasked node is met is the empty list.
\<close>

theorem collectBoundaryNeighbors_correct:
  "set (fst (collectBoundaryNeighbors m allFlows M)) = specPreds allFlows M m
   \<and> set (snd (collectBoundaryNeighbors m allFlows M)) = specSuccs allFlows M m
   \<and> distinct (fst (collectBoundaryNeighbors m allFlows M))
   \<and> distinct (snd (collectBoundaryNeighbors m allFlows M))
   \<and> ((fst (collectBoundaryNeighbors m allFlows M) = []) = (specPreds allFlows M m = {}))
   \<and> ((snd (collectBoundaryNeighbors m allFlows M) = []) = (specSuccs allFlows M m = {}))"
proof -
  have "distinct (fst (collectBoundaryNeighbors m allFlows M))"
    and "distinct (snd (collectBoundaryNeighbors m allFlows M))"
    unfolding collectBoundaryNeighbors_def fst_conv snd_conv
    by (rule bfsLoop_distinct, simp)+
  moreover have "(fst (collectBoundaryNeighbors m allFlows M) = []) = (specPreds allFlows M m = {})"
    using preds_spec [of m allFlows M] by (metis set_empty)
  moreover have "(snd (collectBoundaryNeighbors m allFlows M) = []) = (specSuccs allFlows M m = {})"
    using succs_spec [of m allFlows M] by (metis set_empty)
  ultimately show ?thesis using preds_spec succs_spec by blast
qed


text \<open>
  C8 as stated fails where the document has no plane: with an empty masked set the run
  reports zero, and has created the plane.
\<close>

theorem maskByPrivacy_no_plane_counterexample:
  "maskedIds noPlaneDoc (Num (1/2)) Above = []
   \<and> maskByPrivacy noPlaneDoc (Num (1/2)) Above \<noteq> (0, noPlaneDoc)"
  by (simp add: maskByPrivacy_def maskedIds_def noPlaneDoc_def ensurePlane_def mkTask_def
      shouldMask_def Let_def)

theorem collectBoundaryNeighbors_correct_witness:
  "collectBoundaryNeighbors (Some ''M1'') (flows chainDoc) [Some ''M1'', Some ''M2'']
     = ([Some ''A''], [Some ''B''])
   \<and> specPreds (flows chainDoc) [Some ''M1'', Some ''M2''] (Some ''M1'') = {Some ''A''}
   \<and> specSuccs (flows chainDoc) [Some ''M1'', Some ''M2''] (Some ''M1'') = {Some ''B''}"
proof -
  have e: "collectBoundaryNeighbors (Some ''M1'') (flows chainDoc) [Some ''M1'', Some ''M2'']
     = ([Some ''A''], [Some ''B''])"
    by code_simp
  show ?thesis
    using collectBoundaryNeighbors_correct
      [of "Some ''M1''" "flows chainDoc" "[Some ''M1'', Some ''M2'']"]
    by (simp add: e)
qed


subsection \<open>What the removal of associations touches\<close>

lemma maybeRemove_frame [simp]:
  "flows (maybeRemoveTextAnnotationIfOrphaned d i) = flows d"
  "tasks (maybeRemoveTextAnnotationIfOrphaned d i) = tasks d"
  "groups (maybeRemoveTextAnnotationIfOrphaned d i) = groups d"
  "planeExists (maybeRemoveTextAnnotationIfOrphaned d i) = planeExists d"
  "associations (maybeRemoveTextAnnotationIfOrphaned d i) = associations d"
  "edges (maybeRemoveTextAnnotationIfOrphaned d i) = edges d"
  by (simp_all add: maybeRemoveTextAnnotationIfOrphaned_def removeDIShapeForElement_def)


lemma cascade_frame [simp]:
  "flows (removeAssociationCascade d a) = flows d"
  "tasks (removeAssociationCascade d a) = tasks d"
  "groups (removeAssociationCascade d a) = groups d"
  "planeExists (removeAssociationCascade d a) = planeExists d"
  "associations (removeAssociationCascade d a) = remove1 a (associations d)"
  "edges (removeAssociationCascade d a)
     = filter (\<lambda>e. e_bpmnElement e \<noteq> Some (str (a_id a))) (edges d)"
  by (simp_all add: removeAssociationCascade_def removeDIEdgeForElement_def Let_def)


lemma cascade_fold_frame [simp]:
  "flows (foldl removeAssociationCascade d as) = flows d"
  "tasks (foldl removeAssociationCascade d as) = tasks d"
  "groups (foldl removeAssociationCascade d as) = groups d"
  "planeExists (foldl removeAssociationCascade d as) = planeExists d"
  by (induction as arbitrary: d; simp)+

lemma cascade_fold_associations:
  "associations (foldl removeAssociationCascade d as)
     = foldl (\<lambda>xs a. remove1 a xs) (associations d) as"
  by (induction as arbitrary: d) simp_all





lemma foldl_remove1_keep:
  "x \<notin> set as \<Longrightarrow> foldl (\<lambda>xs a. remove1 a xs) (x # xs) as = x # foldl (\<lambda>xs a. remove1 a xs) xs as"
  by (induction as arbitrary: xs) auto

lemma foldl_remove1_filter:
  "foldl (\<lambda>xs a. remove1 a xs) xs (filter P xs) = filter (\<lambda>x. \<not> P x) xs"
proof (induction xs)
  case Nil
  then show ?case by simp
next
  case (Cons x xs)
  show ?case
  proof (cases "P x")
    case True
    then show ?thesis using Cons.IH by simp
  next
    case False
    then have "x \<notin> set (filter P xs)" by auto
    from foldl_remove1_keep [OF this] False Cons.IH show ?thesis by simp
  qed
qed

lemma removeAll_touching_frame [simp]:
  "flows (removeAllAssociationsTouchingId d i) = flows d"
  "tasks (removeAllAssociationsTouchingId d i) = tasks d"
  "groups (removeAllAssociationsTouchingId d i) = groups d"
  "planeExists (removeAllAssociationsTouchingId d i) = planeExists d"
  "associations (removeAllAssociationsTouchingId d i) = filter (\<lambda>a. \<not> touches i a) (associations d)"
  by (simp_all add: removeAllAssociationsTouchingId_def cascade_fold_associations
      foldl_remove1_filter)


subsection \<open>The synthesis pass\<close>

lemma foldl_product:
  "foldl (\<lambda>st s. foldl (\<lambda>st t. g st s t) st ys) st xs
     = foldl (\<lambda>st c. g st (fst c) (snd c)) st (List.product xs ys)"
proof (induction xs arbitrary: st)
  case Nil
  then show ?case by simp
next
  case (Cons x xs)
  have "foldl (\<lambda>st c. g st (fst c) (snd c)) st (map (Pair x) ys) = foldl (\<lambda>st t. g st x t) st ys"
    by (induction ys arbitrary: st) simp_all
  then show ?case using Cons.IH by simp
qed

lemma synthesizeFor_fold:
  "synthesizeFor allFlows masked st mid
     = foldl (\<lambda>st c. bypassPair st (fst c) (snd c)) st
         (List.product (fst (collectBoundaryNeighbors mid allFlows masked))
                       (snd (collectBoundaryNeighbors mid allFlows masked)))"
  by (simp add: synthesizeFor_def foldl_product split: prod.splits)

lemma synthesizeFor_list:
  "foldl (synthesizeFor allFlows masked) st ms
     = foldl (\<lambda>st c. bypassPair st (fst c) (snd c)) st
         (concat (map (\<lambda>mid. List.product (fst (collectBoundaryNeighbors mid allFlows masked))
                                     (snd (collectBoundaryNeighbors mid allFlows masked))) ms))"
  by (induction ms arbitrary: st) (simp_all add: synthesizeFor_fold)

lemma synthesizeAll_fold:
  "synthesizeAll allFlows masked st
     = foldl (\<lambda>st c. bypassPair st (fst c) (snd c)) st (candidates allFlows masked)"
  by (simp add: synthesizeAll_def candidates_def synthesizeFor_list)

lemma candidates_iff:
  "(s, t) \<in> set (candidates allFlows masked) \<longleftrightarrow>
     (\<exists>m \<in> set masked. s \<in> specPreds allFlows masked m \<and> t \<in> specSuccs allFlows masked m)"
  by (auto simp: candidates_def preds_spec succs_spec)

lemma candidates_unmasked:
  "(s, t) \<in> set (candidates allFlows masked) \<Longrightarrow> s \<notin> set masked \<and> t \<notin> set masked"
  by (auto simp: candidates_iff specPreds_def specSuccs_def)

lemma existingFlow_iff:
  "existingFlow d s t \<noteq> None \<longleftrightarrow>
     (\<exists>f \<in> set (flows d). direct f \<and> f_sourceRef f = Some (str s) \<and> f_targetRef f = Some (str t))"
  by (auto simp: existingFlow_def find_None_iff)

lemma settled_noop: "settled st c \<Longrightarrow> bypassPair st (fst c) (snd c) = st"
  by (auto simp: settled_def bypassPair_def)

lemma bypassPair_cases:
  "bypassPair st s t = st \<or>
   (s \<noteq> t \<and> pairKey s t \<notin> set (autoFlowPairs st) \<and> existingFlow (mdoc st) s t = None
    \<and> (\<exists>nf es. nf = \<lparr>f_id = Some (''AutoFlow_'' @ showNat (counter st + 1)),
                      f_sourceRef = Some (str s), f_targetRef = Some (str t),
                      coupling = None, direct = True\<rparr>
        \<and> bypassPair st s t =
            st\<lparr>mdoc := (mdoc st)\<lparr>flows := flows (mdoc st) @ [nf],
                                    edges := edges (mdoc st) @ es\<rparr>,
                 counter := counter st + 1,
                 autoFlowPairs := pairKey s t # autoFlowPairs st,
                 trace := trace st @ [Created nf]\<rparr>))"
proof (cases "s = t \<or> pairKey s t \<in> set (autoFlowPairs st) \<or> existingFlow (mdoc st) s t \<noteq> None")
  case True
  then show ?thesis by (auto simp: bypassPair_def)
next
  case False
  let ?nf = "\<lparr>f_id = Some (''AutoFlow_'' @ showNat (counter st + 1)),
                      f_sourceRef = Some (str s), f_targetRef = Some (str t),
                      coupling = None, direct = True\<rparr>"
  let ?d1 = "(mdoc st)\<lparr>flows := flows (mdoc st) @ [?nf]\<rparr>"
  let ?es = "if boundsOf ?d1 s \<noteq> None \<and> boundsOf ?d1 t \<noteq> None
      then [\<lparr>e_id = Some ((''AutoFlow_'' @ showNat (counter st + 1)) @ ''_di''),
              e_bpmnElement = Some (''AutoFlow_'' @ showNat (counter st + 1))\<rparr>] else []"
  have "bypassPair st s t =
            st\<lparr>mdoc := (mdoc st)\<lparr>flows := flows (mdoc st) @ [?nf],
                                    edges := edges (mdoc st) @ ?es\<rparr>,
                 counter := counter st + 1,
                 autoFlowPairs := pairKey s t # autoFlowPairs st,
                 trace := trace st @ [Created ?nf]\<rparr>"
    using False by (simp add: bypassPair_def Let_def)
  with False show ?thesis by blast
qed

lemma settled_after: "settled (bypassPair st (fst c) (snd c)) c"
  using bypassPair_cases [of st "fst c" "snd c"]
  by (auto simp: settled_def bypassPair_def Let_def)

lemma settled_alt:
  "settled st c \<longleftrightarrow>
     (fst c = snd c \<or> pairKey (fst c) (snd c) \<in> set (autoFlowPairs st)
      \<or> (\<exists>f \<in> set (flows (mdoc st)). direct f \<and> f_sourceRef f = Some (str (fst c))
            \<and> f_targetRef f = Some (str (snd c))))"
  unfolding settled_def existingFlow_iff ..

lemma settled_mono: "settled st c \<Longrightarrow> settled (bypassPair st s t) c"
  using bypassPair_cases [of st s t]
  unfolding settled_alt by auto

lemma settled_fold_mono:
  "settled st c \<Longrightarrow> settled (foldl (\<lambda>st c. bypassPair st (fst c) (snd c)) st cs) c"
  by (induction cs arbitrary: st) (simp_all add: settled_mono)

lemma settled_fold:
  "c \<in> set cs \<Longrightarrow> settled (foldl (\<lambda>st c. bypassPair st (fst c) (snd c)) st cs) c"
proof (induction cs arbitrary: st)
  case Nil
  then show ?case by simp
next
  case (Cons x cs)
  show ?case
  proof (cases "c = x")
    case True
    then show ?thesis using settled_fold_mono [OF settled_after] by simp
  next
    case False
    with Cons show ?thesis by simp
  qed
qed

lemma settled_fold_noop:
  "\<forall>c \<in> set cs. settled st c \<Longrightarrow> foldl (\<lambda>st c. bypassPair st (fst c) (snd c)) st cs = st"
  by (induction cs) (simp_all add: settled_noop)

lemma synthesizeAll_settles:
  "c \<in> set (candidates allFlows masked) \<Longrightarrow> settled (synthesizeAll allFlows masked st) c"
  by (simp add: synthesizeAll_fold settled_fold)

lemma synthesizeAll_noop:
  "\<forall>c \<in> set (candidates allFlows masked). settled st c \<Longrightarrow> synthesizeAll allFlows masked st = st"
  by (simp add: synthesizeAll_fold settled_fold_noop)

subsection \<open>The removal rounds\<close>

lemma createdIn_trace [simp]: "createdIn (trace st) = created st"
  by (simp add: created_def)

lemma removeFlowStep_frame [simp]:
  "counter (removeFlowStep st f) = counter st"
  "autoFlowPairs (removeFlowStep st f) = autoFlowPairs st"
  "created (removeFlowStep st f) = created st"
  "tasks (mdoc (removeFlowStep st f)) = tasks (mdoc st)"
  "groups (mdoc (removeFlowStep st f)) = groups (mdoc st)"
  "planeExists (mdoc (removeFlowStep st f)) = planeExists (mdoc st)"
  by (simp_all add: removeFlowStep_def Let_def removeDIEdgeForElement_def)

lemma removeFlowStep_flows:
  "flows (mdoc (removeFlowStep st f)) =
     (if falsy (f_id f) \<or> f_id f \<in> set (removedFlowIds st) then flows (mdoc st)
      else remove1 f (flows (mdoc st)))"
  by (simp add: removeFlowStep_def Let_def removeDIEdgeForElement_def)





lemma removeFlows_frame [simp]:
  "counter (foldl removeFlowStep st fs) = counter st"
  "autoFlowPairs (foldl removeFlowStep st fs) = autoFlowPairs st"
  "created (foldl removeFlowStep st fs) = created st"
  "tasks (mdoc (foldl removeFlowStep st fs)) = tasks (mdoc st)"
  "groups (mdoc (foldl removeFlowStep st fs)) = groups (mdoc st)"
  "planeExists (mdoc (foldl removeFlowStep st fs)) = planeExists (mdoc st)"
  by (induction fs arbitrary: st; simp)+


lemma removeFlows_keeps:
  "g \<in> set (flows (mdoc st)) \<Longrightarrow> g \<notin> set fs \<Longrightarrow> g \<in> set (flows (mdoc (foldl removeFlowStep st fs)))"
proof (induction fs arbitrary: st)
  case Nil
  then show ?case by simp
next
  case (Cons f fs)
  from Cons.prems have "g \<in> set (flows (mdoc (removeFlowStep st f)))"
    by (auto simp: removeFlowStep_flows)
  with Cons show ?case by simp
qed

lemma excise_frame [simp]:
  "counter (excise allFlows tasks0 b st mid) = counter st"
  "autoFlowPairs (excise allFlows tasks0 b st mid) = autoFlowPairs st"
  "created (excise allFlows tasks0 b st mid) = created st"
  "groups (mdoc (excise allFlows tasks0 b st mid)) = groups (mdoc st)"
  "planeExists (mdoc (excise allFlows tasks0 b st mid)) = planeExists (mdoc st)"
  by (simp_all add: excise_def Let_def removeDIShapeForElement_def removeNode_def
      split: option.splits)

lemma excise_flows:
  "flows (mdoc (excise allFlows tasks0 b st mid))
     = flows (mdoc (foldl removeFlowStep st
         (flowsByTarget allFlows mid @ flowsBySource allFlows mid)))"
  by (simp add: excise_def Let_def removeDIShapeForElement_def removeNode_def
      del: foldl_append split: option.splits)





lemma excise_keeps:
  assumes "g \<in> set (flows (mdoc st))" and "f_sourceRef g \<noteq> mid" and "f_targetRef g \<noteq> mid"
  shows "g \<in> set (flows (mdoc (excise allFlows tasks0 b st mid)))"
proof -
  have "g \<notin> set (flowsByTarget allFlows mid @ flowsBySource allFlows mid)"
    using assms(2,3) by (auto simp: flowsByTarget_def flowsBySource_def)
  from removeFlows_keeps [OF assms(1) this] show ?thesis unfolding excise_flows .
qed

lemma excise_settled:
  assumes "settled st c" and "Some (str (fst c)) \<noteq> mid" and "Some (str (snd c)) \<noteq> mid"
  shows "settled (excise allFlows tasks0 b st mid) c"
  using assms excise_keeps [of _ st mid allFlows tasks0 b]
  unfolding settled_alt by auto

lemma maskLoop_exciseLoop:
  assumes "set ms \<subseteq> set masked"
    and "\<forall>c \<in> set (candidates allFlows masked). settled st c"
    and written: "\<forall>c \<in> set (candidates allFlows masked).
           Some (str (fst c)) \<notin> set masked \<and> Some (str (snd c)) \<notin> set masked"
  shows "maskLoop allFlows masked tasks0 seen st ms = exciseLoop allFlows tasks0 seen st ms"
  using assms
proof (induction ms arbitrary: st seen)
  case Nil
  then show ?case by simp
next
  case (Cons mid ms)
  have noop: "synthesizeAll allFlows masked st = st"
    using Cons.prems(2) by (rule synthesizeAll_noop)
  have mid: "mid \<in> set masked" using Cons.prems(1) by simp
  have "\<forall>c \<in> set (candidates allFlows masked).
          settled (excise allFlows tasks0 (mid \<in> set seen) st mid) c"
  proof
    fix c assume c: "c \<in> set (candidates allFlows masked)"
    then have "Some (str (fst c)) \<notin> set masked \<and> Some (str (snd c)) \<notin> set masked"
      using written by blast
    with mid have "Some (str (fst c)) \<noteq> mid" "Some (str (snd c)) \<noteq> mid" by auto
    with Cons.prems(2) c show "settled (excise allFlows tasks0 (mid \<in> set seen) st mid) c"
      by (simp add: excise_settled)
  qed
  with Cons.IH [of "excise allFlows tasks0 (mid \<in> set seen) st mid" "mid # seen"] Cons.prems(1)
    written
  show ?case by (simp add: noop)
qed

lemma maskLoop_two_phases:
  assumes written: "\<forall>c \<in> set (candidates allFlows masked).
           Some (str (fst c)) \<notin> set masked \<and> Some (str (snd c)) \<notin> set masked"
  shows "maskLoop allFlows masked tasks0 [] st masked
     = exciseLoop allFlows tasks0 [] (synthesizeAll allFlows masked st) masked"
proof (cases masked)
  case Nil
  then show ?thesis by (simp add: synthesizeAll_def)
next
  case (Cons mid ms)
  let ?st1 = "synthesizeAll allFlows masked st"
  have s1: "\<forall>c \<in> set (candidates allFlows masked). settled ?st1 c"
    by (simp add: synthesizeAll_settles)
  have "maskLoop allFlows masked tasks0 [] ?st1 masked = exciseLoop allFlows tasks0 [] ?st1 masked"
    using s1 written by (intro maskLoop_exciseLoop) simp_all
  moreover have "synthesizeAll allFlows masked ?st1 = ?st1"
    using s1 by (rule synthesizeAll_noop)
  ultimately show ?thesis using Cons by simp
qed

subsection \<open>The flows a run creates\<close>

lemma created_initState [simp]: "created (initState d) = []"
  by (simp add: created_def initState_def)

lemma pairKey_written [simp]: "pairKey (Some (str s)) (Some (str t)) = pairKey s t"
  by (simp add: pairKey_def)

lemma existingFlow_written [simp]:
  "existingFlow d (Some (str s)) (Some (str t)) = existingFlow d s t"
  by (simp add: existingFlow_def)

lemma keysInv_bypassPair:
  assumes "keysInv st"
  shows "keysInv (bypassPair st s t)"
proof -
  consider "bypassPair st s t = st"
    | nf es where "s \<noteq> t" "pairKey s t \<notin> set (autoFlowPairs st)"
        "existingFlow (mdoc st) s t = None"
        "nf = \<lparr>f_id = Some (''AutoFlow_'' @ showNat (counter st + 1)),
                      f_sourceRef = Some (str s), f_targetRef = Some (str t),
                      coupling = None, direct = True\<rparr>"
        "bypassPair st s t =
            st\<lparr>mdoc := (mdoc st)\<lparr>flows := flows (mdoc st) @ [nf],
                                    edges := edges (mdoc st) @ es\<rparr>,
                 counter := counter st + 1,
                 autoFlowPairs := pairKey s t # autoFlowPairs st,
                 trace := trace st @ [Created nf]\<rparr>"
    using bypassPair_cases [of st s t] by blast
  then show ?thesis
  proof cases
    case 1
    then show ?thesis using assms by simp
  next
    case 2
    show ?thesis
      unfolding keysInv_def 2(5) using assms 2(2,4) by (simp add: keysInv_def)
  qed
qed

lemma keysInv_fold:
  "keysInv st \<Longrightarrow> keysInv (foldl (\<lambda>st c. bypassPair st (fst c) (snd c)) st cs)"
  by (induction cs arbitrary: st) (simp_all add: keysInv_bypassPair)

lemma keysInv_synthesizeAll: "keysInv st \<Longrightarrow> keysInv (synthesizeAll allFlows masked st)"
  by (simp add: synthesizeAll_fold keysInv_fold)

lemma keysInv_excise: "keysInv st \<Longrightarrow> keysInv (excise allFlows tasks0 b st mid)"
  by (simp add: keysInv_def)

lemma keysInv_init: "keysInv (initState d)"
  by (simp add: keysInv_def) (simp add: initState_def)

lemma synthInv_init: "synthInv d0 (initState d0)"
  by (simp add: synthInv_def keysInv_init) (simp add: initState_def)

lemma existingFlow_prefix:
  "existingFlow (d\<lparr>flows := xs @ ys\<rparr>) s t = None \<Longrightarrow> existingFlow (d\<lparr>flows := xs\<rparr>) s t = None"
  by (auto simp: existingFlow_def find_None_iff)

lemma synthInv_bypassPair:
  assumes "synthInv d0 st"
  shows "synthInv d0 (bypassPair st s t)"
proof -
  consider "bypassPair st s t = st"
    | nf es where "s \<noteq> t" "pairKey s t \<notin> set (autoFlowPairs st)"
        "existingFlow (mdoc st) s t = None"
        "nf = \<lparr>f_id = Some (''AutoFlow_'' @ showNat (counter st + 1)),
                      f_sourceRef = Some (str s), f_targetRef = Some (str t),
                      coupling = None, direct = True\<rparr>"
        "bypassPair st s t =
            st\<lparr>mdoc := (mdoc st)\<lparr>flows := flows (mdoc st) @ [nf],
                                    edges := edges (mdoc st) @ es\<rparr>,
                 counter := counter st + 1,
                 autoFlowPairs := pairKey s t # autoFlowPairs st,
                 trace := trace st @ [Created nf]\<rparr>"
    using bypassPair_cases [of st s t] by blast
  then show ?thesis
  proof cases
    case 1
    then show ?thesis using assms by simp
  next
    case 2
    have fl: "flows (mdoc st) = flows d0 @ created st" using assms by (simp add: synthInv_def)
    have "existingFlow d0 s t = None"
      using 2(3) fl by (auto simp: existingFlow_def find_None_iff)
    then have nf: "existingFlow d0 (f_sourceRef nf) (f_targetRef nf) = None"
      using 2(4) by simp
    have keys: "keysInv (bypassPair st s t)"
      using assms by (intro keysInv_bypassPair) (simp add: synthInv_def)
    obtain es0 where es0: "edges (mdoc st) = edges d0 @ es0"
      using assms by (auto simp: synthInv_def)
    have tr: "trace st = map Created (created st)" using assms by (simp add: synthInv_def)
    show ?thesis
      unfolding synthInv_def
    proof (intro conjI)
      show "keysInv (bypassPair st s t)" by (rule keys)
    qed (use assms nf es0 tr in \<open>simp_all add: synthInv_def 2(5)\<close>)
  qed
qed

lemma synthInv_fold:
  "synthInv d0 st \<Longrightarrow> synthInv d0 (foldl (\<lambda>st c. bypassPair st (fst c) (snd c)) st cs)"
  by (induction cs arbitrary: st) (simp_all add: synthInv_bypassPair)

lemma synthInv_synthesizeAll:
  "synthInv d0 st \<Longrightarrow> synthInv d0 (synthesizeAll allFlows masked st)"
  by (simp add: synthesizeAll_fold synthInv_fold)

lemma created_bypassPair:
  "f \<in> set (created (bypassPair st s t)) \<Longrightarrow>
   f \<in> set (created st)
   \<or> (s \<noteq> t \<and> f_sourceRef f = Some (str s) \<and> f_targetRef f = Some (str t))"
  using bypassPair_cases [of st s t] by auto

lemma created_fold:
  "f \<in> set (created (foldl (\<lambda>st c. bypassPair st (fst c) (snd c)) st cs)) \<Longrightarrow>
   f \<in> set (created st)
   \<or> (\<exists>c \<in> set cs. fst c \<noteq> snd c \<and> f_sourceRef f = Some (str (fst c))
         \<and> f_targetRef f = Some (str (snd c)))"
proof (induction cs arbitrary: st)
  case Nil
  then show ?case by simp
next
  case (Cons c cs)
  from Cons.prems have "f \<in> set (created (bypassPair st (fst c) (snd c)))
      \<or> (\<exists>c \<in> set cs. fst c \<noteq> snd c \<and> f_sourceRef f = Some (str (fst c))
         \<and> f_targetRef f = Some (str (snd c)))"
    using Cons.IH [of "bypassPair st (fst c) (snd c)"] by simp
  then show ?case using created_bypassPair [of f st "fst c" "snd c"] by auto
qed

lemma created_synthesizeAll:
  "f \<in> set (created (synthesizeAll allFlows masked (initState d0))) \<Longrightarrow>
   \<exists>c \<in> set (candidates allFlows masked). fst c \<noteq> snd c
      \<and> f_sourceRef f = Some (str (fst c)) \<and> f_targetRef f = Some (str (snd c))"
  using created_fold [of f "initState d0" "candidates allFlows masked"]
  by (simp add: synthesizeAll_fold)

lemma candidates_refs:
  "(s, t) \<in> set (candidates fs M) \<Longrightarrow>
   (\<exists>f \<in> set fs. f_sourceRef f = s) \<and> (\<exists>f \<in> set fs. f_targetRef f = t)"
  by (auto simp: candidates_iff specPreds_def specSuccs_def)

lemma candidates_written:
  assumes "refsPresent fs" and "c \<in> set (candidates fs M)"
  shows "Some (str (fst c)) = fst c \<and> Some (str (snd c)) = snd c
    \<and> fst c \<notin> set M \<and> snd c \<notin> set M"
proof -
  have c: "(fst c, snd c) \<in> set (candidates fs M)" using assms(2) by simp
  from candidates_refs [OF c] obtain f g where
    "f \<in> set fs" "f_sourceRef f = fst c" "g \<in> set fs" "f_targetRef g = snd c"
    by blast
  with assms(1) have "fst c \<noteq> None" "snd c \<noteq> None"
    unfolding refsPresent_def list_all_iff by metis+
  then have "Some (str (fst c)) = fst c \<and> Some (str (snd c)) = snd c" by auto
  with candidates_unmasked [OF c] show ?thesis by simp
qed

lemma exciseLoop_created [simp]:
  "created (exciseLoop allFlows tasks0 seen st ms) = created st"
  by (induction ms arbitrary: st seen) simp_all

lemma exciseLoop_counter [simp]:
  "counter (exciseLoop allFlows tasks0 seen st ms) = counter st"
  by (induction ms arbitrary: st seen) simp_all



lemma maskedIds_ensurePlane [simp]:
  "maskedIds (ensurePlane d) thr dir = maskedIds d thr dir"
  by (simp add: maskedIds_def ensurePlane_def)

lemma flows_ensurePlane [simp]: "flows (ensurePlane d) = flows d"
  by (simp add: ensurePlane_def)

lemma existingFlow_ensurePlane [simp]: "existingFlow (ensurePlane d) s t = existingFlow d s t"
  by (simp add: existingFlow_def)

lemma maskRun_two_phases:
  assumes "refsPresent (filter direct (flows d))"
  shows "maskRun d thr dir =
     exciseLoop (filter direct (flows d)) (tasks (ensurePlane d)) []
       (synthesizeAll (filter direct (flows d)) (maskedIds d thr dir) (initState (ensurePlane d)))
       (maskedIds d thr dir)"
proof -
  have "\<forall>c \<in> set (candidates (filter direct (flows d)) (maskedIds d thr dir)).
      Some (str (fst c)) \<notin> set (maskedIds d thr dir)
      \<and> Some (str (snd c)) \<notin> set (maskedIds d thr dir)"
    using candidates_written [OF assms] by metis
  then show ?thesis
    by (simp add: maskRun_def Let_def maskLoop_two_phases)
qed

lemma synthInv_created:
  assumes "synthInv d0 st"
  shows "flows (mdoc st) = flows d0 @ created st"
    and "map (\<lambda>f. pairKey (f_sourceRef f) (f_targetRef f)) (created st) = rev (autoFlowPairs st)"
    and "distinct (autoFlowPairs st)"
    and "list_all (\<lambda>f. existingFlow d0 (f_sourceRef f) (f_targetRef f) = None) (created st)"
    and "counter st = length (created st)"
    and "trace st = map Created (created st)"
    and "list_all (\<lambda>f. direct f \<and> f_sourceRef f \<noteq> None \<and> f_targetRef f \<noteq> None) (created st)"
  using assms by (simp_all add: synthInv_def keysInv_def)

lemma distinct_map_inner:
  "distinct (map (\<lambda>x. g (h x)) xs) \<Longrightarrow> distinct (map h xs)"
  by (induction xs) auto

lemma chainDoc_masked: "maskedIds chainDoc (Num (1/2)) Above = [Some ''M1'', Some ''M2'']"
  by (simp add: maskedIds_def chainDoc_def mkTask_def shouldMask_def)


lemma chainDoc_run:
  "maskRun chainDoc (Num (1/2)) Above =
     \<lparr>mdoc =
        \<lparr>tasks = [mkTask ''A'' NaN, mkTask ''B'' NaN],
         flows = [mkFlow ''AutoFlow_1'' ''A'' ''B''],
         associations = [], annotations = [], groups = [], planeExists = True,
         shapes = [mkShape ''A'', mkShape ''B''],
         edges = [mkEdge ''AutoFlow_1'']\<rparr>,
      counter = 1, removedFlowIds = [Some ''f3'', Some ''f2'', Some ''f1''],
      autoFlowPairs = [pairKey (Some ''A'') (Some ''B'')],
      trace =
        [Created (mkFlow ''AutoFlow_1'' ''A'' ''B''),
         DeletedFlow (mkFlow ''f1'' ''A'' ''M1''),
         DeletedEdge (mkEdge ''f1''),
         DeletedFlow (mkFlow ''f2'' ''M1'' ''M2''),
         DeletedAssociation (mkAssoc ''as1'' ''note'' ''M1''),
         DeletedAnnotation (Some ''note''),
         DeletedNode (mkTask ''M1'' (Num (9/10))),
         DeletedShape (mkShape ''M1''),
         DeletedFlow (mkFlow ''f3'' ''M2'' ''B''),
         DeletedNode (mkTask ''M2'' (Num (9/10)))]\<rparr>"
  by code_simp

lemma chainDoc_created:
  "created (maskRun chainDoc (Num (1/2)) Above) = [mkFlow ''AutoFlow_1'' ''A'' ''B'']"
  unfolding chainDoc_run by (simp add: created_def)

lemma chainDoc_conditions:
  "refsPresent (filter direct (flows chainDoc))" "queryable chainDoc"
  by (simp_all add: refsPresent_def queryable_def plain_def chainDoc_def mkFlow_def mkTask_def
      mkAssoc_def)

subsection \<open>Facts kept by every step of a run\<close>

lemma fold_bypass_rule:
  assumes "P st" and "\<And>st s t. P st \<Longrightarrow> P (bypassPair st s t)"
  shows "P (foldl (\<lambda>st c. bypassPair st (fst c) (snd c)) st cs)"
  using assms(1) by (induction cs arbitrary: st) (simp_all add: assms(2))

lemma maskLoop_rule:
  assumes syn: "\<And>st s t. P st \<Longrightarrow> P (bypassPair st s t)"
    and exc: "\<And>st mid b. P st \<Longrightarrow> mid \<in> set masked \<Longrightarrow> P (excise allFlows tasks0 b st mid)"
  shows "P st \<Longrightarrow> set ms \<subseteq> set masked \<Longrightarrow> P (maskLoop allFlows masked tasks0 seen st ms)"
proof (induction ms arbitrary: st seen)
  case Nil
  then show ?case by simp
next
  case (Cons mid ms)
  have "P (synthesizeAll allFlows masked st)"
    unfolding synthesizeAll_fold using Cons.prems(1) syn by (rule fold_bypass_rule)
  then have "P (excise allFlows tasks0 (mid \<in> set seen) (synthesizeAll allFlows masked st) mid)"
    using Cons.prems(2) by (intro exc) simp_all
  then show ?case using Cons.IH Cons.prems(2) by simp
qed

lemma maskRun_rule:
  assumes "P (initState (ensurePlane d))"
    and "\<And>st s t. P st \<Longrightarrow> P (bypassPair st s t)"
    and "\<And>st mid b. P st \<Longrightarrow> mid \<in> set (maskedIds d thr dir) \<Longrightarrow>
           P (excise (filter direct (flows d)) (tasks (ensurePlane d)) b st mid)"
  shows "P (maskRun d thr dir)"
  unfolding maskRun_def Let_def maskedIds_ensurePlane flows_ensurePlane
  using assms(2,3,1) by (rule maskLoop_rule) simp_all

lemma keysInv_maskRun: "keysInv (maskRun d thr dir)"
  by (rule maskRun_rule) (simp_all add: keysInv_init keysInv_bypassPair keysInv_excise)

lemma keysInv_distinct:
  assumes "keysInv st"
  shows "distinct (map (\<lambda>f. (f_sourceRef f, f_targetRef f)) (created st))"
proof -
  have "distinct (map (\<lambda>f. pairKey (f_sourceRef f) (f_targetRef f)) (created st))"
    using assms by (simp add: keysInv_def)
  then have "distinct (map (\<lambda>f. (\<lambda>p. pairKey (fst p) (snd p)) (f_sourceRef f, f_targetRef f))
      (created st))"
    by simp
  then show ?thesis by (rule distinct_map_inner)
qed

subsection \<open>The order of creations and deletions\<close>

lemma deletesOnly_refl: "deletesOnly st st"
  by (simp add: deletesOnly_def)

lemma deletesOnly_trans: "deletesOnly a b \<Longrightarrow> deletesOnly b c \<Longrightarrow> deletesOnly a c"
  by (auto simp: deletesOnly_def)

lemma deletesOnly_removeFlowStep: "deletesOnly st (removeFlowStep st f)"
  by (simp add: deletesOnly_def removeFlowStep_def Let_def deleted_not_created)

lemma deletesOnly_removeFlows: "deletesOnly st (foldl removeFlowStep st fs)"
proof (induction fs arbitrary: st)
  case Nil
  show ?case by (simp add: deletesOnly_refl)
next
  case (Cons f fs)
  from deletesOnly_removeFlowStep [of st f] Cons.IH [of "removeFlowStep st f"]
  show ?case unfolding foldl_Cons by (rule deletesOnly_trans)
qed

lemma deletesOnly_excise: "deletesOnly st (excise allFlows tasks0 b st mid)"
proof -
  let ?st2 = "foldl removeFlowStep st (flowsByTarget allFlows mid @ flowsBySource allFlows mid)"
  have "deletesOnly ?st2 (excise allFlows tasks0 b st mid)"
    by (simp add: deletesOnly_def excise_def Let_def deleted_not_created del: foldl_append)
  with deletesOnly_removeFlows [of st] show ?thesis by (rule deletesOnly_trans)
qed

lemma deletesOnly_exciseLoop: "deletesOnly st (exciseLoop allFlows tasks0 seen st ms)"
proof (induction ms arbitrary: st seen)
  case Nil
  show ?case by (simp add: deletesOnly_refl)
next
  case (Cons mid ms)
  from deletesOnly_excise [of st allFlows tasks0 "mid \<in> set seen" mid]
    Cons.IH [of "excise allFlows tasks0 (mid \<in> set seen) st mid" "mid # seen"]
  show ?case unfolding exciseLoop.simps by (rule deletesOnly_trans)
qed

lemma filter_not_created: "filter (\<lambda>e. \<not> isCreated e) (map Created fs) = []"
  by (induction fs) simp_all

lemma filter_deletions: "list_all (\<lambda>e. \<not> isCreated e) ds \<Longrightarrow> filter (\<lambda>e. \<not> isCreated e) ds = ds"
  by (induction ds) simp_all

text \<open>
  C4 as stated fails where a flow lacks its \<^verbatim>\<open>sourceRef\<close> and a masked task has the id
  \<open>null\<close>. In \<open>lateDoc\<close> the first round leaves the pair of \<^verbatim>\<open>null\<close> and \<open>B\<close> alone,
  because the flow \<open>e\<close> joins the texts \<open>null\<close> and \<open>B\<close>, and then removes \<open>e\<close> with the
  task \<open>null\<close>; the second round finds no such flow any more and creates the bypass,
  after two deletions.
\<close>

theorem late_bypass_counterexample:
  "maskedIds lateDoc (Num (1/2)) Above = [Some ''null'', Some ''M'']
   \<and> trace (maskRun lateDoc (Num (1/2)) Above) =
       [DeletedFlow (mkFlow ''e'' ''null'' ''B''),
        DeletedNode (mkTask ''null'' (Num (9/10))),
        Created (mkFlow ''AutoFlow_1'' ''null'' ''B''),
        DeletedFlow (noSourceFlow ''f1'' ''M''),
        DeletedFlow (mkFlow ''f2'' ''M'' ''B''),
        DeletedNode (mkTask ''M'' (Num (9/10)))]"
  by code_simp

text \<open>
  C4, amended. Let every process-level flow carry both its \<^verbatim>\<open>sourceRef\<close> and its
  \<^verbatim>\<open>targetRef\<close>, in a document with no double quote in an id or a reference. Then the
  record of the steps of a masking run is the list of the flows it has created followed
  by deletions only: no flow, association, annotation, node, shape or edge is detached
  before the last bypass flow of the run has been appended.
\<close>

theorem synthesis_before_removal:
  assumes "refsPresent (filter direct (flows d))" and "queryable d"
  shows "trace (maskRun d thr dir)
    = map Created (created (maskRun d thr dir))
      @ filter (\<lambda>e. \<not> isCreated e) (trace (maskRun d thr dir))"
proof -
  define s1 where "s1 = synthesizeAll (filter direct (flows d)) (maskedIds d thr dir)
               (initState (ensurePlane d))"
  have inv: "synthInv (ensurePlane d) s1"
    unfolding s1_def by (intro synthInv_synthesizeAll synthInv_init)
  have run: "maskRun d thr dir
      = exciseLoop (filter direct (flows d)) (tasks (ensurePlane d)) [] s1 (maskedIds d thr dir)"
    unfolding s1_def using assms(1) by (rule maskRun_two_phases)
  have "deletesOnly s1 (maskRun d thr dir)"
    unfolding run by (rule deletesOnly_exciseLoop)
  then obtain ds where ds: "trace (maskRun d thr dir) = trace s1 @ ds"
      "list_all (\<lambda>e. \<not> isCreated e) ds"
    unfolding deletesOnly_def by blast
  have t1: "trace s1 = map Created (created s1)"
    by (rule synthInv_created(6) [OF inv])
  have cr: "created (maskRun d thr dir) = created s1"
    unfolding run by simp
  show ?thesis
    unfolding cr ds(1) t1
    by (simp add: filter_not_created filter_deletions [OF ds(2)])
qed

theorem synthesis_before_removal_witness:
  "refsPresent (filter direct (flows chainDoc)) \<and> queryable chainDoc
   \<and> created (maskRun chainDoc (Num (1/2)) Above) = [mkFlow ''AutoFlow_1'' ''A'' ''B'']
   \<and> trace (maskRun chainDoc (Num (1/2)) Above) =
       Created (mkFlow ''AutoFlow_1'' ''A'' ''B'')
       # filter (\<lambda>e. \<not> isCreated e) (trace (maskRun chainDoc (Num (1/2)) Above))
   \<and> length (filter (\<lambda>e. \<not> isCreated e) (trace (maskRun chainDoc (Num (1/2)) Above))) = 9"
proof -
  have n: "length (filter (\<lambda>e. \<not> isCreated e) (trace (maskRun chainDoc (Num (1/2)) Above))) = 9"
    unfolding chainDoc_run by simp
  show ?thesis
    using synthesis_before_removal [OF chainDoc_conditions, of "Num (1/2)" Above]
      chainDoc_conditions n
    by (simp add: chainDoc_created)
qed

text \<open>
  C3 as stated fails in three ways. The test for a flow that exists looks at the children
  of the process element only: in \<open>nestedShortcutDoc\<close> a flow from \<open>A\<close> to \<open>B\<close> lies
  deeper, and the run creates a second one. And the guard against self-loops compares
  the values before they are written: in \<open>nullLoopDoc\<close> the source is \<^verbatim>\<open>null\<close> and the
  target is the id \<open>null\<close>, and the flow written joins \<open>null\<close> to itself. In \<open>lateDoc\<close>,
  where a round removes the process-level flow \<open>e\<close> before a later round looks for it,
  the bypass doubles a flow that the process had before the run.
\<close>

theorem bypass_duplicate_counterexample:
  "created (maskRun nestedShortcutDoc (Num (1/2)) Above) = [mkFlow ''AutoFlow_1'' ''A'' ''B'']
   \<and> filter (\<lambda>g. f_sourceRef g = Some ''A'' \<and> f_targetRef g = Some ''B'') (flows nestedShortcutDoc)
       = [(mkFlow ''n1'' ''A'' ''B'')\<lparr>direct := False\<rparr>]
   \<and> maskedIds nullLoopDoc (Num (1/2)) Above = [Some ''M'']
   \<and> created (maskRun nullLoopDoc (Num (1/2)) Above) = [mkFlow ''AutoFlow_1'' ''null'' ''null'']
   \<and> created (maskRun lateDoc (Num (1/2)) Above) = [mkFlow ''AutoFlow_1'' ''null'' ''B'']
   \<and> filter (\<lambda>g. direct g \<and> f_sourceRef g = Some ''null'' \<and> f_targetRef g = Some ''B'')
         (flows lateDoc)
       = [mkFlow ''e'' ''null'' ''B'']"
  by code_simp

text \<open>
  C3, amended. In a document with no double quote in an id or a reference, no two of
  the bypass flows that one masking run creates join the same ordered pair. When every
  process-level flow carries both its \<^verbatim>\<open>sourceRef\<close> and its \<^verbatim>\<open>targetRef\<close>, none of them
  joins a node to itself, and none joins a pair that a child of the process element
  joined before the run.
\<close>

theorem bypass_no_loop_no_duplicate:
  assumes "queryable d"
  shows "distinct (map (\<lambda>f. (f_sourceRef f, f_targetRef f)) (created (maskRun d thr dir)))
   \<and> (refsPresent (filter direct (flows d)) \<longrightarrow>
        list_all (\<lambda>f. f_sourceRef f \<noteq> f_targetRef f) (created (maskRun d thr dir))
        \<and> list_all (\<lambda>f. filter (\<lambda>g. direct g \<and> f_sourceRef g = f_sourceRef f
                                       \<and> f_targetRef g = f_targetRef f) (flows d) = [])
            (created (maskRun d thr dir)))"
proof -
  have di: "distinct (map (\<lambda>f. (f_sourceRef f, f_targetRef f)) (created (maskRun d thr dir)))"
    using keysInv_maskRun by (rule keysInv_distinct)
  have "list_all (\<lambda>f. f_sourceRef f \<noteq> f_targetRef f) (created (maskRun d thr dir))
        \<and> list_all (\<lambda>f. filter (\<lambda>g. direct g \<and> f_sourceRef g = f_sourceRef f
                                       \<and> f_targetRef g = f_targetRef f) (flows d) = [])
            (created (maskRun d thr dir))"
    if h: "refsPresent (filter direct (flows d))"
  proof -
    define M where "M = maskedIds d thr dir"
    define AF where "AF = filter direct (flows d)"
    define s1 where "s1 = synthesizeAll AF M (initState (ensurePlane d))"
    have inv: "synthInv (ensurePlane d) s1"
      unfolding s1_def by (intro synthInv_synthesizeAll synthInv_init)
    have cr: "created (maskRun d thr dir) = created s1"
      unfolding s1_def AF_def M_def by (simp add: maskRun_two_phases [OF h])
    have l1: "f_sourceRef f \<noteq> f_targetRef f" if f: "f \<in> set (created s1)" for f
    proof -
      from created_synthesizeAll [OF f [unfolded s1_def]] obtain c where
        c: "c \<in> set (candidates AF M)" "fst c \<noteq> snd c"
          "f_sourceRef f = Some (str (fst c))" "f_targetRef f = Some (str (snd c))"
        by blast
      from candidates_written [OF h [folded AF_def] c(1)] c(2,3,4) show ?thesis by simp
    qed
    have l2: "filter (\<lambda>g. direct g \<and> f_sourceRef g = f_sourceRef f
        \<and> f_targetRef g = f_targetRef f) (flows d) = []" if f: "f \<in> set (created s1)" for f
    proof -
      have n: "f_sourceRef f \<noteq> None \<and> f_targetRef f \<noteq> None"
        using synthInv_created(7) [OF inv] f by (simp add: list_all_iff)
      have "existingFlow (ensurePlane d) (f_sourceRef f) (f_targetRef f) = None"
        using synthInv_created(4) [OF inv] f by (simp add: list_all_iff)
      then have "\<not> (\<exists>g \<in> set (flows d). direct g \<and> f_sourceRef g = Some (str (f_sourceRef f))
          \<and> f_targetRef g = Some (str (f_targetRef f)))"
        using existingFlow_iff [of d "f_sourceRef f" "f_targetRef f"] by simp
      moreover have "Some (str (f_sourceRef f)) = f_sourceRef f"
        "Some (str (f_targetRef f)) = f_targetRef f"
        using n by auto
      ultimately show ?thesis by (simp add: filter_empty_conv)
    qed
    show ?thesis unfolding cr list_all_iff using l1 l2 by blast
  qed
  with di show ?thesis by blast
qed

theorem bypass_no_loop_no_duplicate_witness:
  "queryable chainDoc \<and> refsPresent (filter direct (flows chainDoc))
   \<and> created (maskRun chainDoc (Num (1/2)) Above) = [mkFlow ''AutoFlow_1'' ''A'' ''B'']
   \<and> distinct (map (\<lambda>f. (f_sourceRef f, f_targetRef f))
        (created (maskRun chainDoc (Num (1/2)) Above)))
   \<and> filter (\<lambda>g. direct g \<and> f_sourceRef g = Some ''A'' \<and> f_targetRef g = Some ''B'')
        (flows chainDoc) = []"
  using bypass_no_loop_no_duplicate [OF chainDoc_conditions(2), of "Num (1/2)" Above]
    chainDoc_conditions
  by (simp add: chainDoc_created mkFlow_def)

subsection \<open>The flows a run deletes\<close>

lemma count_pos: "x \<in> set xs \<Longrightarrow> 0 < count_list xs x"
  using count_list_0_iff [of xs x] by auto

lemma count_remove1:
  "count_list (remove1 y xs) x
     = (if x = y \<and> y \<in> set xs then count_list xs x - 1 else count_list xs x)"
proof (induction xs)
  case Nil
  show ?case by simp
next
  case (Cons a xs)
  from Cons count_pos [of x xs] show ?case by auto
qed

lemma listDiff_count: "x \<in> set (listDiff xs ys) \<Longrightarrow> count_list ys x < count_list xs x"
proof (induction ys arbitrary: xs)
  case Nil
  then show ?case by (simp add: listDiff_def count_pos)
next
  case (Cons y ys)
  from Cons.prems have "x \<in> set (listDiff (remove1 y xs) ys)" by (simp add: listDiff_def)
  from Cons.IH [OF this] show ?case
    by (auto simp: count_remove1 split: if_splits)
qed

lemma listDiff_same [simp]: "listDiff xs xs = []"
proof (cases "listDiff xs xs")
  case Nil
  then show ?thesis .
next
  case (Cons x r)
  then have "x \<in> set (listDiff xs xs)" by simp
  from listDiff_count [OF this] show ?thesis by simp
qed












subsection \<open>What the removal rounds leave\<close>






















lemma maskByPrivacy_snd:
  "snd (maskByPrivacy d thr dir) = mdoc (maskRun d thr dir)"
  by (simp add: maskByPrivacy_def maskRun_def Let_def initState_def)




lemma chainDoc_final:
  "snd (maskByPrivacy chainDoc (Num (1/2)) Above) =
     \<lparr>tasks = [mkTask ''A'' NaN, mkTask ''B'' NaN],
      flows = [mkFlow ''AutoFlow_1'' ''A'' ''B''],
      associations = [], annotations = [], groups = [], planeExists = True,
      shapes = [mkShape ''A'', mkShape ''B''],
      edges = [mkEdge ''AutoFlow_1'']\<rparr>"
  by (simp add: maskByPrivacy_snd chainDoc_run)



subsection \<open>The masked set and the tasks a run removes\<close>

lemma shouldMask_iff:
  "shouldMask dir thr p \<longleftrightarrow>
     (\<exists>x. p = Num x \<and> (if dir = Above then js_ge (Num x) thr else js_lt (Num x) thr))"
  by (cases p) (simp_all add: shouldMask_def)

lemma removeLast_distinct:
  "distinct xs \<Longrightarrow> rev (remove1 x (rev xs)) = filter (\<lambda>y. y \<noteq> x) xs"
proof -
  assume "distinct xs"
  then have "rev (remove1 x (rev xs)) = filter ((\<noteq>) x) xs"
    by (simp add: distinct_remove1_removeAll removeAll_filter_not_eq rev_filter)
  also have "\<dots> = filter (\<lambda>y. y \<noteq> x) xs"
    by (intro filter_cong) auto
  finally show ?thesis .
qed

lemma byId_None: "byId ts mid = None \<longleftrightarrow> mid \<notin> t_id ` set ts"
proof -
  have "filter (\<lambda>t. t_id t = mid) ts = [] \<longleftrightarrow> mid \<notin> t_id ` set ts"
    by (auto simp: filter_empty_conv)
  then show ?thesis by (auto simp: byId_def split: list.splits)
qed

lemma byId_Some:
  assumes "byId ts mid = Some node"
  shows "node \<in> set ts \<and> t_id node = mid"
proof -
  from assms obtain t r where fr: "filter (\<lambda>t. t_id t = mid) ts = t # r" and n: "node = last (t # r)"
    by (auto simp: byId_def split: list.splits)
  have "last (t # r) \<in> set (t # r)" by (rule last_in_set) simp
  then have "node \<in> set (filter (\<lambda>t. t_id t = mid) ts)" using fr n by simp
  then show ?thesis by simp
qed

lemma excise_tasks:
  "tasks (mdoc (excise allFlows tasks0 b st mid)) =
     (case byId tasks0 mid of
        None \<Rightarrow> tasks (mdoc st)
      | Some node \<Rightarrow> if b then tasks (mdoc st) else rev (remove1 node (rev (tasks (mdoc st)))))"
  by (simp add: excise_def Let_def removeDIShapeForElement_def removeNode_def
      del: foldl_append split: option.splits)

lemma bypassPair_tasks [simp]: "tasks (mdoc (bypassPair st s t)) = tasks (mdoc st)"
  using bypassPair_cases [of st s t] by auto

lemma synthesizeAll_tasks [simp]:
  "tasks (mdoc (synthesizeAll allFlows masked st)) = tasks (mdoc st)"
  unfolding synthesizeAll_fold
  by (rule fold_bypass_rule [where P = "\<lambda>s. tasks (mdoc s) = tasks (mdoc st)"]) simp_all

lemma maskLoop_tasks:
  assumes ids: "distinct (map t_id tasks0)"
  shows "tasks (mdoc st) = filter (\<lambda>a. t_id a \<notin> set seen) tasks0 \<Longrightarrow> distinct ms \<Longrightarrow>
    set ms \<inter> set seen = {} \<Longrightarrow>
    tasks (mdoc (maskLoop allFlows masked tasks0 seen st ms))
      = filter (\<lambda>a. t_id a \<notin> set seen \<union> set ms) tasks0"
proof (induction ms arbitrary: st seen)
  case Nil
  then show ?case by simp
next
  case (Cons mid ms)
  let ?s = "synthesizeAll allFlows masked st"
  let ?st = "excise allFlows tasks0 False ?s mid"
  have nb: "(mid \<in> set seen) = False" using Cons.prems(3) by simp
  have d0: "distinct tasks0" using ids by (simp add: distinct_map)
  have ts0: "tasks (mdoc ?s) = filter (\<lambda>a. t_id a \<notin> set seen) tasks0"
    using Cons.prems(1) by simp
  have ts: "tasks (mdoc ?st) = filter (\<lambda>a. t_id a \<notin> set (mid # seen)) tasks0"
  proof (cases "byId tasks0 mid")
    case None
    then have "mid \<notin> t_id ` set tasks0" by (simp add: byId_None)
    then have "filter (\<lambda>a. t_id a \<notin> set (mid # seen)) tasks0
        = filter (\<lambda>a. t_id a \<notin> set seen) tasks0"
      by (intro filter_cong) auto
    then show ?thesis using None ts0 by (simp add: excise_tasks)
  next
    case (Some node)
    then have node: "node \<in> set tasks0" "t_id node = mid" using byId_Some by blast+
    have "a \<noteq> node \<longleftrightarrow> t_id a \<noteq> mid" if "a \<in> set tasks0" for a
      using that node ids by (auto simp: distinct_map dest: inj_onD)
    then have "filter (\<lambda>y. y \<noteq> node) (filter (\<lambda>a. t_id a \<notin> set seen) tasks0)
        = filter (\<lambda>a. t_id a \<notin> set (mid # seen)) tasks0"
      unfolding filter_filter by (intro filter_cong) auto
    moreover have "distinct (tasks (mdoc ?s))" using d0 ts0 by simp
    ultimately show ?thesis
      using Some ts0 by (simp add: excise_tasks removeLast_distinct)
  qed
  have "tasks (mdoc (maskLoop allFlows masked tasks0 (mid # seen) ?st ms))
      = filter (\<lambda>a. t_id a \<notin> set (mid # seen) \<union> set ms) tasks0"
    using ts Cons.prems(2,3) by (intro Cons.IH) auto
  then show ?case by (simp add: nb)
qed

lemma maskRun_tasks:
  assumes ids: "distinct (map t_id (tasks d))"
  shows "tasks (mdoc (maskRun d thr dir)) = filter (\<lambda>a. \<not> shouldMask dir thr (privacy a)) (tasks d)"
proof -
  let ?M = "maskedIds d thr dir"
  have t0: "tasks (ensurePlane d) = tasks d" by (simp add: ensurePlane_def)
  have dm: "distinct ?M"
    unfolding maskedIds_def using ids by (simp add: distinct_map_filter)
  have "tasks (mdoc (maskLoop (filter direct (flows d)) ?M (tasks d) []
          (initState (ensurePlane d)) ?M))
      = filter (\<lambda>a. t_id a \<notin> set [] \<union> set ?M) (tasks d)"
    using ids dm by (intro maskLoop_tasks) (simp_all add: initState_def t0)
  moreover have "filter (\<lambda>a. t_id a \<notin> set [] \<union> set ?M) (tasks d)
      = filter (\<lambda>a. \<not> shouldMask dir thr (privacy a)) (tasks d)"
  proof (intro filter_cong refl)
    fix a assume a: "a \<in> set (tasks d)"
    have "t_id a \<in> set ?M \<longleftrightarrow> shouldMask dir thr (privacy a)"
      using a ids by (auto simp: maskedIds_def distinct_map dest: inj_onD)
    then show "(t_id a \<notin> set [] \<union> set ?M) = (\<not> shouldMask dir thr (privacy a))" by simp
  qed
  ultimately show ?thesis by (simp add: maskRun_def Let_def t0)
qed

text \<open>
  C8, amended. The masked ids are those of the tasks whose privacy is a finite number
  \<open>p\<close> with \<open>p \<ge> threshold\<close> (above) or \<open>p < threshold\<close> (below); a task whose privacy is
  not a finite number is never selected; the run reports the number of masked ids and,
  when the task ids are distinct, removes exactly the selected tasks. When the masked
  set is empty the run reports zero and leaves the document as it is, except that it
  creates the plane when there is none.
\<close>

theorem masked_set_and_empty_run:
  "set (maskedIds d (Num t) Above)
     = {t_id a | a. a \<in> set (tasks d) \<and> (\<exists>p. privacy a = Num p \<and> t \<le> p)}
   \<and> set (maskedIds d (Num t) Below)
     = {t_id a | a. a \<in> set (tasks d) \<and> (\<exists>p. privacy a = Num p \<and> p < t)}
   \<and> maskedIds d thr dir
     = map t_id (filter (\<lambda>a. \<exists>p. privacy a = Num p
          \<and> (if dir = Above then js_ge (Num p) thr else js_lt (Num p) thr)) (tasks d))
   \<and> fst (maskByPrivacy d thr dir) = length (maskedIds d thr dir)
   \<and> (distinct (map t_id (tasks d)) \<longrightarrow>
        tasks (snd (maskByPrivacy d thr dir))
          = filter (\<lambda>a. \<not> (\<exists>p. privacy a = Num p
              \<and> (if dir = Above then js_ge (Num p) thr else js_lt (Num p) thr))) (tasks d))
   \<and> (maskedIds d thr dir = [] \<longrightarrow> maskByPrivacy d thr dir = (0, ensurePlane d))
   \<and> (maskedIds d thr dir = [] \<and> planeExists d \<longrightarrow> maskByPrivacy d thr dir = (0, d))"
proof -
  have gen: "maskedIds d thr dir
     = map t_id (filter (\<lambda>a. \<exists>p. privacy a = Num p
          \<and> (if dir = Above then js_ge (Num p) thr else js_lt (Num p) thr)) (tasks d))"
    for thr dir
    unfolding maskedIds_def shouldMask_iff ..
  have ab: "set (maskedIds d (Num t) Above)
     = {t_id a | a. a \<in> set (tasks d) \<and> (\<exists>p. privacy a = Num p \<and> t \<le> p)}"
    unfolding gen by auto
  have be: "set (maskedIds d (Num t) Below)
     = {t_id a | a. a \<in> set (tasks d) \<and> (\<exists>p. privacy a = Num p \<and> p < t)}"
    unfolding gen by auto
  have cnt: "fst (maskByPrivacy d thr dir) = length (maskedIds d thr dir)"
    by (simp add: maskByPrivacy_def Let_def)
  have tk: "tasks (snd (maskByPrivacy d thr dir))
          = filter (\<lambda>a. \<not> (\<exists>p. privacy a = Num p
              \<and> (if dir = Above then js_ge (Num p) thr else js_lt (Num p) thr))) (tasks d)"
    if "distinct (map t_id (tasks d))"
    using maskRun_tasks [OF that, of thr dir] unfolding maskByPrivacy_snd shouldMask_iff .
  have em: "maskByPrivacy d thr dir = (0, ensurePlane d)" if "maskedIds d thr dir = []"
    using that by (simp add: maskByPrivacy_def Let_def)
  have ep: "maskByPrivacy d thr dir = (0, d)" if "maskedIds d thr dir = [] \<and> planeExists d"
    using that by (simp add: maskByPrivacy_def Let_def ensurePlane_def)
  show ?thesis using gen ab be cnt tk em ep by blast
qed

theorem masked_set_and_empty_run_witness:
  "distinct (map t_id (tasks chainDoc))
   \<and> fst (maskByPrivacy chainDoc (Num (1/2)) Above) = 2
   \<and> map t_id (tasks (snd (maskByPrivacy chainDoc (Num (1/2)) Above))) = [Some ''A'', Some ''B'']
   \<and> maskedIds noPlaneDoc (Num (1/2)) Above = []
   \<and> maskByPrivacy noPlaneDoc (Num (1/2)) Above = (0, noPlaneDoc\<lparr>planeExists := True\<rparr>)
   \<and> maskedIds chainDoc (Num (1/2)) Below = [] \<and> planeExists chainDoc
   \<and> maskByPrivacy chainDoc (Num (1/2)) Below = (0, chainDoc)"
proof -
  note above = masked_set_and_empty_run [of chainDoc "1/2" "Num (1/2)" Above]
  note below = masked_set_and_empty_run [of chainDoc "1/2" "Num (1/2)" Below]
  note empty = masked_set_and_empty_run [of noPlaneDoc "1/2" "Num (1/2)" Above]
  have d: "distinct (map t_id (tasks chainDoc))"
    by (simp add: chainDoc_def mkTask_def)
  have n: "maskedIds noPlaneDoc (Num (1/2)) Above = []"
    by (simp add: maskedIds_def noPlaneDoc_def mkTask_def shouldMask_def)
  have b: "maskedIds chainDoc (Num (1/2)) Below = [] \<and> planeExists chainDoc"
    by (simp add: maskedIds_def chainDoc_def mkTask_def shouldMask_def)
  have e: "ensurePlane noPlaneDoc = noPlaneDoc\<lparr>planeExists := True\<rparr>"
    by (simp add: ensurePlane_def noPlaneDoc_def)
  have c: "fst (maskByPrivacy chainDoc (Num (1/2)) Above) = 2"
    using above [THEN conjunct2, THEN conjunct2, THEN conjunct2, THEN conjunct1]
    by (simp add: chainDoc_masked)
  have "tasks (snd (maskByPrivacy chainDoc (Num (1/2)) Above))
      = filter (\<lambda>a. \<not> (\<exists>p. privacy a = Num p
              \<and> (if Above = Above then js_ge (Num p) (Num (1/2)) else js_lt (Num p) (Num (1/2)))))
          (tasks chainDoc)"
    using above [THEN conjunct2, THEN conjunct2, THEN conjunct2, THEN conjunct2,
        THEN conjunct1] d by (rule mp)
  moreover have "filter (\<lambda>a. \<not> (\<exists>p. privacy a = Num p
              \<and> (if Above = Above then js_ge (Num p) (Num (1/2)) else js_lt (Num p) (Num (1/2)))))
          (tasks chainDoc) = [mkTask ''A'' NaN, mkTask ''B'' NaN]"
    unfolding shouldMask_iff [symmetric]
    by (simp add: chainDoc_def mkTask_def shouldMask_def)
  ultimately have k: "map t_id (tasks (snd (maskByPrivacy chainDoc (Num (1/2)) Above))) = [Some ''A'', Some ''B'']"
    by (simp add: mkTask_def)
  have m: "maskByPrivacy noPlaneDoc (Num (1/2)) Above = (0, noPlaneDoc\<lparr>planeExists := True\<rparr>)"
    using empty [THEN conjunct2, THEN conjunct2, THEN conjunct2, THEN conjunct2,
        THEN conjunct2, THEN conjunct1] n e by simp
  have z: "maskByPrivacy chainDoc (Num (1/2)) Below = (0, chainDoc)"
    using below [THEN conjunct2, THEN conjunct2, THEN conjunct2, THEN conjunct2,
        THEN conjunct2, THEN conjunct2] b by (rule mp)
  show ?thesis using d c k n m b z by simp
qed

subsection \<open>Reachability across the masked nodes\<close>

lemma arrow_overlap:
  assumes "us @ arrow @ b = arrow @ b'" and "\<not> sublist arrow (a @ us)"
  shows "us = []"
proof (rule ccontr)
  assume ne: "us \<noteq> []"
  then obtain x r1 where u1: "us = x # r1" by (cases us) auto
  show False
  proof (cases r1)
    case Nil
    with u1 assms(1) show False by (simp add: arrow_def)
  next
    case (Cons y r2)
    show False
    proof (cases r2)
      case Nil
      with u1 Cons assms(1) show False by (simp add: arrow_def)
    next
      case (Cons z r3)
      with u1 \<open>r1 = y # r2\<close> assms(1) have "us = arrow @ r3" by (simp add: arrow_def)
      then have "sublist arrow (a @ us)" by (auto simp: sublist_def)
      with assms(2) show False by simp
    qed
  qed
qed

lemma key_inj:
  assumes "\<not> sublist arrow a" and "\<not> sublist arrow a'" and "a @ arrow @ b = a' @ arrow @ b'"
  shows "a = a' \<and> b = b'"
proof -
  from assms(3) obtain us where "(a = a' @ us \<and> us @ arrow @ b = arrow @ b')
      \<or> (a @ us = a' \<and> arrow @ b = us @ arrow @ b')"
    using append_eq_append_conv2 [of a "arrow @ b" a' "arrow @ b'"] by blast
  then show ?thesis
  proof
    assume h: "a = a' @ us \<and> us @ arrow @ b = arrow @ b'"
    with assms(1) have "us = []" by (intro arrow_overlap [of us b b' a']) simp_all
    with h show ?thesis by simp
  next
    assume h: "a @ us = a' \<and> arrow @ b = us @ arrow @ b'"
    with assms(2) have "us = []" by (intro arrow_overlap [of us b' b a]) simp_all
    with h show ?thesis by simp
  qed
qed

lemma pairKey_inj:
  assumes "\<not> sublist arrow (str a)" and "\<not> sublist arrow (str a')"
    and "pairKey a b = pairKey a' b'"
  shows "str a = str a' \<and> str b = str b'"
  using assms unfolding pairKey_def by (rule key_inj)

lemma path_reach:
  "set ms \<subseteq> set M \<Longrightarrow> flowPath fs (m # ms @ [b]) \<Longrightarrow>
   \<exists>u. (m, u) \<in> (forwardMasked fs M)\<^sup>* \<and> (\<exists>f \<in> set fs. f_sourceRef f = u \<and> f_targetRef f = b)"
proof (induction ms arbitrary: m)
  case Nil
  then show ?case by auto
next
  case (Cons m' ms)
  from Cons.prems have step: "(m, m') \<in> forwardMasked fs M"
    by (auto simp: forwardMasked_def)
  from Cons.prems have "set ms \<subseteq> set M" "flowPath fs (m' # ms @ [b])" by simp_all
  from Cons.IH [OF this] obtain u where
    u: "(m', u) \<in> (forwardMasked fs M)\<^sup>*" "\<exists>f \<in> set fs. f_sourceRef f = u \<and> f_targetRef f = b"
    by blast
  from step u(1) have "(m, u) \<in> (forwardMasked fs M)\<^sup>*"
    by (rule converse_rtrancl_into_rtrancl)
  with u(2) show ?case by blast
qed

lemma path_candidate:
  assumes "a \<notin> set M" "b \<notin> set M" "ms \<noteq> []" "set ms \<subseteq> set M" "flowPath fs (a # ms @ [b])"
  shows "(a, b) \<in> set (candidates fs M)"
proof -
  from assms(3) obtain m r where ms: "ms = m # r" by (cases ms) auto
  have m: "m \<in> set M" using assms(4) ms by simp
  have "\<exists>f \<in> set fs. f_sourceRef f = a \<and> f_targetRef f = m"
    using assms(5) ms by simp
  then have p: "a \<in> specPreds fs M m"
    using assms(1) by (auto simp: specPreds_def)
  have "flowPath fs (m # r @ [b])" using assms(5) ms by simp
  moreover have "set r \<subseteq> set M" using assms(4) ms by simp
  ultimately have "\<exists>u. (m, u) \<in> (forwardMasked fs M)\<^sup>*
      \<and> (\<exists>f \<in> set fs. f_sourceRef f = u \<and> f_targetRef f = b)"
    by (intro path_reach)
  then have "b \<in> specSuccs fs M m" using assms(2) by (auto simp: specSuccs_def)
  with p m show ?thesis unfolding candidates_iff by blast
qed

lemma candidate_source:
  "(s, t) \<in> set (candidates fs M) \<Longrightarrow> \<exists>f \<in> set fs. f_sourceRef f = s"
  by (auto simp: candidates_iff specPreds_def)

lemma distinct_map_filter_le:
  "distinct (map h xs) \<Longrightarrow> length (filter (\<lambda>x. h x = k) xs) \<le> 1"
  by (induction xs) (auto simp: filter_empty_conv image_iff)

lemma synthesized_flow:
  assumes inv: "synthInv d0 st"
    and st: "settled st (Some a, Some b)" and ab: "a \<noteq> b"
    and cr: "\<forall>f \<in> set (created st). \<not> sublist arrow (str (f_sourceRef f))"
    and a: "\<not> sublist arrow a"
  shows "\<exists>g \<in> set (flows (mdoc st)). direct g \<and> f_sourceRef g = Some a \<and> f_targetRef g = Some b"
proof -
  from st ab consider "pairKey (Some a) (Some b) \<in> set (autoFlowPairs st)"
    | "\<exists>g \<in> set (flows (mdoc st)). direct g \<and> f_sourceRef g = Some a \<and> f_targetRef g = Some b"
    unfolding settled_alt by auto
  then show ?thesis
  proof cases
    case 1
    then have "pairKey (Some a) (Some b)
        \<in> set (map (\<lambda>f. pairKey (f_sourceRef f) (f_targetRef f)) (created st))"
      unfolding synthInv_created(2) [OF inv] by simp
    then obtain f where f: "f \<in> set (created st)"
        "pairKey (f_sourceRef f) (f_targetRef f) = pairKey (Some a) (Some b)"
      by auto
    have "str (f_sourceRef f) = str (Some a) \<and> str (f_targetRef f) = str (Some b)"
      using cr f a by (intro pairKey_inj) auto
    moreover have p: "direct f \<and> f_sourceRef f \<noteq> None \<and> f_targetRef f \<noteq> None"
      using synthInv_created(7) [OF inv] f(1) by (auto simp: list_all_iff)
    ultimately have "f_sourceRef f = Some a \<and> f_targetRef f = Some b" by auto
    moreover have "f \<in> set (flows (mdoc st))" using synthInv_created(1) [OF inv] f(1) by simp
    ultimately show ?thesis using p by blast
  next
    case 2
    then show ?thesis .
  qed
qed

lemma maskRun_rule_after:
  assumes ne: "maskedIds d thr dir \<noteq> []"
    and s1: "P (synthesizeAll (filter direct (flows d)) (maskedIds d thr dir)
                (initState (ensurePlane d)))"
    and syn: "\<And>st s t. P st \<Longrightarrow> P (bypassPair st s t)"
    and exc: "\<And>st mid b. P st \<Longrightarrow> mid \<in> set (maskedIds d thr dir) \<Longrightarrow>
           P (excise (filter direct (flows d)) (tasks (ensurePlane d)) b st mid)"
  shows "P (maskRun d thr dir)"
proof -
  from ne obtain mid rest where M: "maskedIds d thr dir = mid # rest"
    by (cases "maskedIds d thr dir") auto
  let ?M = "maskedIds d thr dir"
  let ?AF = "filter direct (flows d)"
  let ?s1 = "synthesizeAll ?AF ?M (initState (ensurePlane d))"
  have "maskRun d thr dir
      = maskLoop ?AF ?M (tasks (ensurePlane d)) [] (initState (ensurePlane d)) ?M"
    by (simp add: maskRun_def Let_def)
  also have "\<dots> = maskLoop ?AF ?M (tasks (ensurePlane d)) [] (initState (ensurePlane d))
      (mid # rest)"
    using M
    by (rule arg_cong [where f = "maskLoop ?AF ?M (tasks (ensurePlane d)) []
        (initState (ensurePlane d))"])
  also have "\<dots> = maskLoop ?AF ?M (tasks (ensurePlane d)) [mid]
          (excise ?AF (tasks (ensurePlane d)) False ?s1 mid) rest"
    by simp
  finally have run: "maskRun d thr dir
      = maskLoop ?AF ?M (tasks (ensurePlane d)) [mid]
          (excise ?AF (tasks (ensurePlane d)) False ?s1 mid) rest" .
  have "P (excise ?AF (tasks (ensurePlane d)) False ?s1 mid)"
    using s1 by (rule exc) (simp add: M)
  then show ?thesis
    unfolding run using syn exc by (intro maskLoop_rule [where P = P]) (auto simp: M)
qed

lemma bypassPair_flows_mono:
  "g \<in> set (flows (mdoc st)) \<Longrightarrow> g \<in> set (flows (mdoc (bypassPair st s t)))"
  using bypassPair_cases [of st s t] by auto

lemma bypassPair_created_mono:
  "g \<in> set (created st) \<Longrightarrow> g \<in> set (created (bypassPair st s t))"
  using bypassPair_cases [of st s t] by auto

text \<open>
  C1 as stated fails in two ways. The synthesis reads the children of the process
  element only: in \<open>nestedChainDoc\<close> the path from \<open>A\<close> through the masked \<open>M\<close> to \<open>B\<close>
  runs along flows that lie deeper, the task \<open>M\<close> is removed, and no flow from \<open>A\<close> to
  \<open>B\<close> is created. And two pairs can have the same key: in \<open>collisionDoc\<close> the pair of
  \<open>a\<rightarrow>\<close> and \<open>b\<close> is taken for a repetition of the pair of \<open>a\<close> and \<open>\<rightarrow>b\<close>, and gets no
  flow.
\<close>

theorem bypass_missing_counterexample:
  "maskedIds nestedChainDoc (Num (1/2)) Above = [Some ''M'']
   \<and> flowPath (flows nestedChainDoc) [Some ''A'', Some ''M'', Some ''B'']
   \<and> map t_id (tasks (snd (maskByPrivacy nestedChainDoc (Num (1/2)) Above)))
       = [Some ''A'', Some ''B'']
   \<and> flows (snd (maskByPrivacy nestedChainDoc (Num (1/2)) Above)) = flows nestedChainDoc
   \<and> filter (\<lambda>g. f_sourceRef g = Some ''A'' \<and> f_targetRef g = Some ''B'') (flows nestedChainDoc) = []
   \<and> maskedIds collisionDoc (Num (1/2)) Above = [Some ''M'']
   \<and> flowPath (filter direct (flows collisionDoc)) [Some (''a'' @ arrow), Some ''M'', Some ''b'']
   \<and> map (\<lambda>g. (f_sourceRef g, f_targetRef g))
         (flows (snd (maskByPrivacy collisionDoc (Num (1/2)) Above)))
       = [(Some ''a'', Some (arrow @ ''b'')), (Some ''a'', Some ''b''),
          (Some (''a'' @ arrow), Some (arrow @ ''b''))]"
  by code_simp

text \<open>
  C1, amended. Let \<open>a\<close> and \<open>b\<close> be the ids of two different unmasked nodes joined in the
  original process by a path of process-level flows whose inner nodes (at least one)
  are all masked, no \<^verbatim>\<open>sourceRef\<close> of a process-level flow holding the character
  U+2192, in a document with no double quote in an id or a reference. After the masking
  run a process-level flow from \<open>a\<close> to \<open>b\<close> is in the document, and the run has created
  exactly one flow from \<open>a\<close> to \<open>b\<close> when the original process had no process-level flow
  from \<open>a\<close> to \<open>b\<close>, and none when it had one, however many such paths there were.
\<close>

theorem bypass_preserves_reachability:
  assumes "a \<noteq> b"
    and "Some a \<notin> set (maskedIds d thr dir)" and "Some b \<notin> set (maskedIds d thr dir)"
    and "ms \<noteq> []" and "set ms \<subseteq> set (maskedIds d thr dir)"
    and "flowPath (filter direct (flows d)) (Some a # ms @ [Some b])"
    and "list_all (\<lambda>f. \<not> sublist arrow (str (f_sourceRef f))) (filter direct (flows d))"
    and "queryable d"
  shows "(\<exists>g \<in> set (flows (snd (maskByPrivacy d thr dir))).
            direct g \<and> f_sourceRef g = Some a \<and> f_targetRef g = Some b)
    \<and> length (filter (\<lambda>f. f_sourceRef f = Some a \<and> f_targetRef f = Some b)
          (created (maskRun d thr dir)))
        = (if existingFlow d (Some a) (Some b) = None then 1 else 0)"
proof -
  define M where "M = maskedIds d thr dir"
  define AF where "AF = filter direct (flows d)"
  define s1 where "s1 = synthesizeAll AF M (initState (ensurePlane d))"
  define T where "T = tasks (ensurePlane d)"
  note hyp = assms [folded M_def AF_def]
  have ne: "M \<noteq> []" using hyp(4,5) by auto
  have inv: "synthInv (ensurePlane d) s1"
    unfolding s1_def by (intro synthInv_synthesizeAll synthInv_init)
  have fin: "snd (maskByPrivacy d thr dir) = mdoc (maskRun d thr dir)"
    by (rule maskByPrivacy_snd)
  have after: "P (maskRun d thr dir)"
    if "P s1" "\<And>st s t. P st \<Longrightarrow> P (bypassPair st s t)"
      "\<And>st mid b. P st \<Longrightarrow> mid \<in> set M \<Longrightarrow> P (excise AF T b st mid)" for P
    using ne that unfolding M_def AF_def s1_def T_def by (rule maskRun_rule_after)
  have names: "\<not> sublist arrow (str (f_sourceRef f))" if "f \<in> set AF" for f
    using hyp(7) that unfolding list_all_iff by (rule bspec)
  have cand: "(Some a, Some b) \<in> set (candidates AF M)"
    using hyp(2-6) by (rule path_candidate)
  then have st: "settled s1 (Some a, Some b)" unfolding s1_def by (rule synthesizeAll_settles)
  have an: "\<not> sublist arrow a"
  proof -
    from candidate_source [OF cand] obtain f where "f \<in> set AF" "f_sourceRef f = Some a" by blast
    with names [of f] show ?thesis by simp
  qed
  have crn: "\<forall>f \<in> set (created s1). \<not> sublist arrow (str (f_sourceRef f))"
  proof
    fix f assume "f \<in> set (created s1)"
    from created_synthesizeAll [OF this [unfolded s1_def]] obtain c where
      c: "c \<in> set (candidates AF M)" "f_sourceRef f = Some (str (fst c))"
      by blast
    have "(fst c, snd c) \<in> set (candidates AF M)" using c(1) by simp
    from candidate_source [OF this] obtain f' where "f' \<in> set AF" "f_sourceRef f' = fst c"
      by blast
    with names [of f'] c(2) show "\<not> sublist arrow (str (f_sourceRef f))" by simp
  qed
  obtain g where g: "g \<in> set (flows (mdoc s1))" "direct g"
      "f_sourceRef g = Some a" "f_targetRef g = Some b"
    using synthesized_flow [OF inv st hyp(1) crn an] by blast
  have keep: "h \<in> set (flows (mdoc (excise AF T fl st mid)))"
    if "h \<in> set (flows (mdoc st))" "f_sourceRef h = Some a" "f_targetRef h = Some b"
      "mid \<in> set M" for h fl st mid
    using that hyp(2,3) by (intro excise_keeps) auto
  have "g \<in> set (flows (mdoc (maskRun d thr dir)))"
    using g(1) bypassPair_flows_mono keep [OF _ g(3,4)]
    by (rule after [where P = "\<lambda>st. g \<in> set (flows (mdoc st))"])
  then have ex: "\<exists>g \<in> set (flows (snd (maskByPrivacy d thr dir))).
            direct g \<and> f_sourceRef g = Some a \<and> f_targetRef g = Some b"
    unfolding fin using g by blast
  let ?P = "\<lambda>f. f_sourceRef f = Some a \<and> f_targetRef f = Some b"
  have "distinct (map (\<lambda>f. (f_sourceRef f, f_targetRef f)) (created (maskRun d thr dir)))"
    using keysInv_maskRun by (rule keysInv_distinct)
  then have "length (filter (\<lambda>f. (f_sourceRef f, f_targetRef f) = (Some a, Some b))
      (created (maskRun d thr dir))) \<le> 1"
    by (rule distinct_map_filter_le)
  then have le: "length (filter ?P (created (maskRun d thr dir))) \<le> 1" by simp
  have cnt: "length (filter ?P (created (maskRun d thr dir)))
      = (if existingFlow d (Some a) (Some b) = None then 1 else 0)"
  proof (cases "existingFlow d (Some a) (Some b) = None")
    case True
    have "g \<notin> set (flows d)"
      using True g(2-4) unfolding existingFlow_def find_None_iff by auto
    then have "g \<in> set (created s1)"
      using g(1) synthInv_created(1) [OF inv] by simp
    then have "g \<in> set (created (maskRun d thr dir))"
      using bypassPair_created_mono
      by (rule after [where P = "\<lambda>st. g \<in> set (created st)"]) simp_all
    then have "g \<in> set (filter ?P (created (maskRun d thr dir)))" using g(3,4) by simp
    then have "1 \<le> length (filter ?P (created (maskRun d thr dir)))"
      by (cases "filter ?P (created (maskRun d thr dir))") simp_all
    with le have "length (filter ?P (created (maskRun d thr dir))) = 1" by (rule order_antisym)
    then show ?thesis using True by simp
  next
    case False
    then obtain g0 where g0: "g0 \<in> set (flows d)" "direct g0"
        "f_sourceRef g0 = Some a" "f_targetRef g0 = Some b"
      unfolding existingFlow_iff by auto
    let ?Q = "\<lambda>st. g0 \<in> set (flows (mdoc st)) \<and> filter ?P (created st) = []"
    have "mdoc (initState (ensurePlane d)) = ensurePlane d" by (simp add: initState_def)
    then have q0: "?Q (initState (ensurePlane d))" using g0(1) by simp
    have q1: "?Q (bypassPair st s t)" if q: "?Q st" for st s t
    proof -
      consider "bypassPair st s t = st"
        | nf es where "existingFlow (mdoc st) s t = None"
            "nf = \<lparr>f_id = Some (''AutoFlow_'' @ showNat (counter st + 1)),
                      f_sourceRef = Some (str s), f_targetRef = Some (str t),
                      coupling = None, direct = True\<rparr>"
            "bypassPair st s t =
                st\<lparr>mdoc := (mdoc st)\<lparr>flows := flows (mdoc st) @ [nf],
                                    edges := edges (mdoc st) @ es\<rparr>,
                 counter := counter st + 1,
                 autoFlowPairs := pairKey s t # autoFlowPairs st,
                 trace := trace st @ [Created nf]\<rparr>"
        using bypassPair_cases [of st s t] by blast
      then show ?thesis
      proof cases
        case 1
        then show ?thesis using q by simp
      next
        case 2
        have "\<not> (Some (str s) = Some a \<and> Some (str t) = Some b)"
          using 2(1) q g0(2-4) unfolding existingFlow_def find_None_iff by auto
        then have "\<not> ?P nf" using 2(2) by simp
        then show ?thesis unfolding 2(3) using q by simp
      qed
    qed
    have q2: "?Q (excise AF T fl st mid)" if "?Q st" "mid \<in> set M" for st mid fl
      using that keep [OF _ g0(3,4)] by simp
    have "?Q (maskRun d thr dir)"
      using q0 q1 q2 [unfolded AF_def T_def M_def] by (rule maskRun_rule)
    then show ?thesis using False by simp
  qed
  show ?thesis using ex cnt by blast
qed

lemma shortcutDoc_run:
  "maskedIds shortcutDoc (Num (1/2)) Above = [Some ''M1'', Some ''M2'']
   \<and> created (maskRun shortcutDoc (Num (1/2)) Above) = []
   \<and> map f_id (flows (mdoc (maskRun shortcutDoc (Num (1/2)) Above))) = [Some ''f4'']
   \<and> existingFlow shortcutDoc (Some ''A'') (Some ''B'') = Some (mkFlow ''f4'' ''A'' ''B'')"
  by code_simp

theorem bypass_preserves_reachability_witness:
  "''A'' \<noteq> ''B''
   \<and> Some ''A'' \<notin> set (maskedIds chainDoc (Num (1/2)) Above)
   \<and> Some ''B'' \<notin> set (maskedIds chainDoc (Num (1/2)) Above)
   \<and> set [Some ''M1'', Some ''M2''] \<subseteq> set (maskedIds chainDoc (Num (1/2)) Above)
   \<and> flowPath (filter direct (flows chainDoc)) (Some ''A'' # [Some ''M1'', Some ''M2''] @ [Some ''B''])
   \<and> list_all (\<lambda>f. \<not> sublist arrow (str (f_sourceRef f))) (filter direct (flows chainDoc))
   \<and> queryable chainDoc
   \<and> map f_id (flows (snd (maskByPrivacy chainDoc (Num (1/2)) Above))) = [Some ''AutoFlow_1'']
   \<and> length (filter (\<lambda>f. f_sourceRef f = Some ''A'' \<and> f_targetRef f = Some ''B'')
        (created (maskRun chainDoc (Num (1/2)) Above))) = 1
   \<and> flowPath (filter direct (flows shortcutDoc)) (Some ''A'' # [Some ''M1'', Some ''M2''] @ [Some ''B''])
   \<and> queryable shortcutDoc
   \<and> length (filter (\<lambda>f. f_sourceRef f = Some ''A'' \<and> f_targetRef f = Some ''B'')
        (created (maskRun shortcutDoc (Num (1/2)) Above))) = 0"
proof -
  have h1: "(''A''::string) \<noteq> ''B''" by simp
  have h2: "Some ''A'' \<notin> set (maskedIds chainDoc (Num (1/2)) Above)"
    and h3: "Some ''B'' \<notin> set (maskedIds chainDoc (Num (1/2)) Above)"
    and h5: "set [Some ''M1'', Some ''M2''] \<subseteq> set (maskedIds chainDoc (Num (1/2)) Above)"
    by (simp_all add: chainDoc_masked)
  have h4: "[Some ''M1'', Some ''M2''] \<noteq> ([]::string option list)" by simp
  have h6: "flowPath (filter direct (flows chainDoc))
      (Some ''A'' # [Some ''M1'', Some ''M2''] @ [Some ''B''])"
    by (simp add: chainDoc_def mkFlow_def)
  have h7: "list_all (\<lambda>f. \<not> sublist arrow (str (f_sourceRef f))) (filter direct (flows chainDoc))"
    by (simp add: chainDoc_def mkFlow_def arrow_def sublist_Cons_right)
  note h8 = chainDoc_conditions(2)
  have k2: "Some ''A'' \<notin> set (maskedIds shortcutDoc (Num (1/2)) Above)"
    and k3: "Some ''B'' \<notin> set (maskedIds shortcutDoc (Num (1/2)) Above)"
    and k5: "set [Some ''M1'', Some ''M2''] \<subseteq> set (maskedIds shortcutDoc (Num (1/2)) Above)"
    by (simp_all add: shortcutDoc_run)
  have k6: "flowPath (filter direct (flows shortcutDoc))
      (Some ''A'' # [Some ''M1'', Some ''M2''] @ [Some ''B''])"
    by (simp add: shortcutDoc_def chainDoc_def mkFlow_def)
  have k7: "list_all (\<lambda>f. \<not> sublist arrow (str (f_sourceRef f))) (filter direct (flows shortcutDoc))"
    by (simp add: shortcutDoc_def chainDoc_def mkFlow_def arrow_def sublist_Cons_right)
  have k8: "queryable shortcutDoc"
    by (simp add: queryable_def plain_def shortcutDoc_def chainDoc_def mkFlow_def mkTask_def
        mkAssoc_def)
  note t1 = bypass_preserves_reachability [OF h1 h2 h3 h4 h5 h6 h7 h8]
  note t2 = bypass_preserves_reachability [OF h1 k2 k3 h4 k5 k6 k7 k8]
  have c1: "length (filter (\<lambda>f. f_sourceRef f = Some ''A'' \<and> f_targetRef f = Some ''B'')
        (created (maskRun chainDoc (Num (1/2)) Above))) = 1"
    using t1 [THEN conjunct2] by (simp add: chainDoc_created mkFlow_def)
  have c2: "length (filter (\<lambda>f. f_sourceRef f = Some ''A'' \<and> f_targetRef f = Some ''B'')
        (created (maskRun shortcutDoc (Num (1/2)) Above))) = 0"
    using t2 [THEN conjunct2] by (simp add: shortcutDoc_run)
  have f1: "map f_id (flows (snd (maskByPrivacy chainDoc (Num (1/2)) Above))) = [Some ''AutoFlow_1'']"
    by (simp add: chainDoc_final mkFlow_def)
  show ?thesis using h1 h2 h3 h5 h6 h7 h8 f1 c1 k6 k8 c2 by simp
qed


section \<open>Fragmentation: properties\<close>

subsection \<open>Roots\<close>

lemma is_root_unique: "is_root p i r \<Longrightarrow> is_root p i r' \<Longrightarrow> r = r'"
proof (induction arbitrary: r' rule: is_root.induct)
  case (root i)
  from root.prems root.hyps show ?case by (cases rule: is_root.cases) auto
next
  case (step i r)
  from step.prems step.hyps(1) have "is_root p (p ! i) r'"
    by (cases rule: is_root.cases) auto
  then show ?case by (rule step.IH)
qed

lemma is_root_fix: "is_root p i r \<Longrightarrow> p ! r = r"
  by (induction rule: is_root.induct) auto

lemma is_root_self: "is_root p i r \<Longrightarrow> is_root p r r"
  by (auto dest: is_root_fix intro: is_root.root)

lemma is_root_bound:
  "is_root p i r \<Longrightarrow> ranked rk p \<Longrightarrow> i < length p \<Longrightarrow> r < length p \<and> (r \<noteq> i \<longrightarrow> rk r < rk i)"
proof (induction rule: is_root.induct)
  case (root i)
  then show ?case by simp
next
  case (step i r)
  from step.prems have pi: "p ! i < length p" "rk (p ! i) < rk i"
    using step.hyps(1) by (auto simp: ranked_def)
  from step.IH [OF step.prems(1) pi(1)] pi(2) show ?case by auto
qed

lemma is_root_total:
  "ranked rk p \<Longrightarrow> i < length p \<Longrightarrow> \<exists>r. is_root p i r"
proof (induction "rk i" arbitrary: i rule: less_induct)
  case less
  show ?case
  proof (cases "p ! i = i")
    case True
    then show ?thesis by (auto intro: is_root.root)
  next
    case False
    with less.prems have "p ! i < length p" "rk (p ! i) < rk i"
      by (auto simp: ranked_def)
    from less.hyps [OF this(2) less.prems(1) this(1)] False show ?thesis
      by (auto intro: is_root.step)
  qed
qed

lemma compressed_refl: "compressed p p"
  by (simp add: compressed_def)

lemma compressed_ranked:
  assumes "ranked rk p" and "compressed p p'"
  shows "ranked rk p'"
  unfolding ranked_def
proof (intro allI impI)
  fix j assume "j < length p'"
  then have j: "j < length p" using assms(2) by (simp add: compressed_def)
  from assms(2) j consider "p' ! j = p ! j" | "is_root p j (p' ! j)"
    by (auto simp: compressed_def)
  then have "p' ! j < length p \<and> (p' ! j \<noteq> j \<longrightarrow> rk (p' ! j) < rk j)"
  proof cases
    case 1
    then show ?thesis using assms(1) j by (auto simp: ranked_def)
  next
    case 2
    from is_root_bound [OF this assms(1) j] show ?thesis by simp
  qed
  then show "p' ! j < length p' \<and> (p' ! j \<noteq> j \<longrightarrow> rk (p' ! j) < rk j)"
    using assms(2) by (simp add: compressed_def)
qed

lemma compressed_fix:
  assumes "compressed p p'" and "r < length p" and "p ! r = r"
  shows "p' ! r = r"
proof -
  from assms(1,2) consider "p' ! r = p ! r" | "is_root p r (p' ! r)"
    by (auto simp: compressed_def)
  then show ?thesis
  proof cases
    case 1
    with assms(3) show ?thesis by simp
  next
    case 2
    moreover have "is_root p r r" using assms(3) by (rule is_root.root)
    ultimately show ?thesis by (rule is_root_unique)
  qed
qed

lemma compressed_root_forward:
  "is_root p j r \<Longrightarrow> ranked rk p \<Longrightarrow> compressed p p' \<Longrightarrow> j < length p \<Longrightarrow> is_root p' j r"
proof (induction rule: is_root.induct)
  case (root i)
  then have "p' ! i = i" by (intro compressed_fix [of p p'])
  then show ?case by (rule is_root.root)
next
  case (step i r)
  have rt: "is_root p i r" using step.hyps by (rule is_root.step)
  from is_root_bound [OF rt step.prems(1,3)] have rb: "r < length p" by simp
  have rfix: "p' ! r = r"
    using step.prems(2) rb is_root_fix [OF rt] by (rule compressed_fix)
  have ri: "r \<noteq> i" using is_root_fix [OF rt] step.hyps(1) by auto
  from step.prems(2,3) consider "p' ! i = p ! i" | "is_root p i (p' ! i)"
    by (auto simp: compressed_def)
  then show ?case
  proof cases
    case 1
    have "p ! i < length p" using step.prems(1,3) by (simp add: ranked_def)
    from step.IH [OF step.prems(1,2) this] have "is_root p' (p' ! i) r" using 1 by simp
    moreover have "p' ! i \<noteq> i" using 1 step.hyps(1) by simp
    ultimately show ?thesis by (rule is_root.step [rotated])
  next
    case 2
    with rt have e: "p' ! i = r" by (rule is_root_unique [rotated])
    have "is_root p' r r" using rfix by (rule is_root.root)
    then have "is_root p' (p' ! i) r" using e by simp
    moreover have "p' ! i \<noteq> i" using e ri by simp
    ultimately show ?thesis by (rule is_root.step [rotated])
  qed
qed

lemma compressed_root:
  assumes "ranked rk p" and "compressed p p'" and "j < length p"
  shows "is_root p' j r \<longleftrightarrow> is_root p j r"
proof
  assume "is_root p j r"
  then show "is_root p' j r" using assms by (rule compressed_root_forward)
next
  assume r': "is_root p' j r"
  from is_root_total [OF assms(1,3)] obtain r0 where r0: "is_root p j r0" by blast
  then have "is_root p' j r0" using assms by (rule compressed_root_forward)
  with r' have "r = r0" by (rule is_root_unique)
  with r0 show "is_root p j r" by simp
qed

lemma compressed_trans:
  assumes "ranked rk p" and "compressed p p'" and "compressed p' p''"
  shows "compressed p p''"
  unfolding compressed_def
proof (intro conjI allI impI)
  show "length p'' = length p" using assms(2,3) by (simp add: compressed_def)
  fix j assume j: "j < length p"
  then have j': "j < length p'" using assms(2) by (simp add: compressed_def)
  from assms(3) j' consider "p'' ! j = p' ! j" | "is_root p' j (p'' ! j)"
    by (auto simp: compressed_def)
  then show "p'' ! j = p ! j \<or> is_root p j (p'' ! j)"
  proof cases
    case 1
    then show ?thesis using assms(2) j by (auto simp: compressed_def)
  next
    case 2
    then show ?thesis using compressed_root [OF assms(1,2) j] by simp
  qed
qed

subsection \<open>find\<close>

lemma uf_find_spec:
  "ranked rk p \<Longrightarrow> i < length p \<Longrightarrow>
   \<exists>r p'. uf_find p i = Some (r, p') \<and> is_root p i r \<and> compressed p p'"
proof (induction "rk i" arbitrary: i rule: less_induct)
  case less
  show ?case
  proof (cases "p ! i = i")
    case True
    then have "uf_find p i = Some (i, p)" using less.prems(2) by (simp add: uf_find.simps)
    moreover have "is_root p i i" using True by (rule is_root.root)
    ultimately show ?thesis using compressed_refl by blast
  next
    case False
    with less.prems have pi: "p ! i < length p" "rk (p ! i) < rk i"
      by (auto simp: ranked_def)
    from less.hyps [OF pi(2) less.prems(1) pi(1)] obtain r p1 where
      rec: "uf_find p (p ! i) = Some (r, p1)" "is_root p (p ! i) r" "compressed p p1"
      by blast
    have f: "uf_find p i = Some (r, p1[i := r])"
      using False less.prems(2) rec(1) by (subst uf_find.simps) simp
    have rt: "is_root p i r" using False rec(2) by (rule is_root.step)
    have "compressed p (p1[i := r])"
      unfolding compressed_def
    proof (intro conjI allI impI)
      show "length (p1[i := r]) = length p" using rec(3) by (simp add: compressed_def)
      fix j assume j: "j < length p"
      show "p1[i := r] ! j = p ! j \<or> is_root p j (p1[i := r] ! j)"
      proof (cases "j = i")
        case True
        then show ?thesis using rt j rec(3) by (simp add: compressed_def)
      next
        case False
        then show ?thesis using rec(3) j by (simp add: compressed_def)
      qed
    qed
    with f rt show ?thesis by blast
  qed
qed

lemma rootOf_iff:
  assumes "ranked rk p" and "i < length p"
  shows "is_root p i r \<longleftrightarrow> rootOf p i = r"
proof -
  from is_root_total [OF assms] obtain r0 where r0: "is_root p i r0" by blast
  have "rootOf p i = r0"
    unfolding rootOf_def using r0 by (rule the_equality) (rule is_root_unique [OF _ r0])
  with r0 show ?thesis using is_root_unique by blast
qed

lemma rootOf_root:
  "ranked rk p \<Longrightarrow> i < length p \<Longrightarrow> is_root p i (rootOf p i)"
  by (simp add: rootOf_iff)

lemma rootOf_bound:
  "ranked rk p \<Longrightarrow> i < length p \<Longrightarrow> rootOf p i < length p"
  using is_root_bound [OF rootOf_root] by blast

lemma rootOf_compressed:
  "ranked rk p \<Longrightarrow> compressed p p' \<Longrightarrow> j < length p \<Longrightarrow> rootOf p' j = rootOf p j"
proof -
  assume a: "ranked rk p" "compressed p p'" "j < length p"
  have "is_root p' j (rootOf p j)"
    using compressed_root [OF a] rootOf_root [OF a(1,3)] by simp
  moreover have "ranked rk p'" using a(1,2) by (rule compressed_ranked)
  moreover have "j < length p'" using a(2,3) by (simp add: compressed_def)
  ultimately show ?thesis by (simp add: rootOf_iff)
qed

lemma rootOf_init: "i < n \<Longrightarrow> rootOf (unionFind n) i = i"
proof -
  assume i: "i < n"
  have r: "ranked (\<lambda>_. 0) (unionFind n)" by (simp add: ranked_def unionFind_def)
  have "is_root (unionFind n) i i" using i by (intro is_root.root) (simp add: unionFind_def)
  then show ?thesis using rootOf_iff [OF r, of i i] i by (simp add: unionFind_def)
qed

subsection \<open>unite\<close>

lemma link_root:
  assumes "p ! ra = ra" and "p ! rb = rb" and "ra \<noteq> rb" and "rb < length p"
  shows "is_root p j r \<Longrightarrow> is_root (p[rb := ra]) j (if r = rb then ra else r)"
proof (induction rule: is_root.induct)
  case (root i)
  show ?case
  proof (cases "i = rb")
    case True
    have "is_root (p[rb := ra]) ra ra" using assms(1,3) by (intro is_root.root) simp
    then have "is_root (p[rb := ra]) (p[rb := ra] ! rb) ra" using assms(4) by simp
    moreover have "p[rb := ra] ! rb \<noteq> rb" using assms(3,4) by simp
    ultimately have "is_root (p[rb := ra]) rb ra" by (rule is_root.step [rotated])
    then show ?thesis using True by simp
  next
    case False
    then have "p[rb := ra] ! i = i" using root.hyps by simp
    then have "is_root (p[rb := ra]) i i" by (rule is_root.root)
    then show ?thesis using False by simp
  qed
next
  case (step i r)
  have "i \<noteq> rb" using step.hyps(1) assms(2) by auto
  then have e: "p[rb := ra] ! i = p ! i" by simp
  have "p[rb := ra] ! i \<noteq> i" using e step.hyps(1) by simp
  moreover have "is_root (p[rb := ra]) (p[rb := ra] ! i) (if r = rb then ra else r)"
    using step.IH e by simp
  ultimately show ?case by (rule is_root.step)
qed

lemma link_ranked:
  assumes rk: "ranked rk p" and ra: "p ! ra = ra" "ra < length p"
    and rb: "p ! rb = rb" "rb < length p" and ne: "ra \<noteq> rb"
  shows "ranked (\<lambda>j. if is_root p j rb then rk j + rk ra + 1 else rk j) (p[rb := ra])"
  unfolding ranked_def
proof (intro allI impI conjI)
  fix j assume "j < length (p[rb := ra])"
  then have j: "j < length p" by simp
  show "p[rb := ra] ! j < length (p[rb := ra])"
    using j ra(2) rk by (cases "j = rb") (simp_all add: ranked_def)
  assume nj: "p[rb := ra] ! j \<noteq> j"
  let ?rk = "\<lambda>j. if is_root p j rb then rk j + rk ra + 1 else rk j"
  show "?rk (p[rb := ra] ! j) < ?rk j"
  proof (cases "j = rb")
    case True
    have "is_root p ra ra" using ra(1) by (rule is_root.root)
    then have "\<not> is_root p ra rb" using ne is_root_unique by blast
    moreover have "is_root p rb rb" using rb(1) by (rule is_root.root)
    ultimately show ?thesis using True rb(2) by simp
  next
    case False
    then have e: "p[rb := ra] ! j = p ! j" by simp
    with nj have pj: "p ! j \<noteq> j" by simp
    have lt: "rk (p ! j) < rk j" using rk j pj by (simp add: ranked_def)
    have "is_root p j rb \<longleftrightarrow> is_root p (p ! j) rb"
    proof
      assume "is_root p j rb"
      then show "is_root p (p ! j) rb" using pj by (cases rule: is_root.cases) auto
    next
      assume "is_root p (p ! j) rb"
      with pj show "is_root p j rb" by (rule is_root.step)
    qed
    then show ?thesis using e lt by simp
  qed
qed

lemma unite_spec:
  assumes rk: "ranked rk p" and a: "a < length p" and b: "b < length p"
  shows "\<exists>p' rk'. unite p a b = Some p' \<and> ranked rk' p' \<and> length p' = length p
    \<and> (\<forall>j < length p. rootOf p' j = (if rootOf p j = rootOf p b then rootOf p a else rootOf p j))"
proof -
  from uf_find_spec [OF rk a] obtain ra p1 where
    f1: "uf_find p a = Some (ra, p1)" "is_root p a ra" "compressed p p1"
    by blast
  have rk1: "ranked rk p1" using rk f1(3) by (rule compressed_ranked)
  have l1: "length p1 = length p" using f1(3) by (simp add: compressed_def)
  from uf_find_spec [OF rk1, of b] b l1 obtain rb p2 where
    f2: "uf_find p1 b = Some (rb, p2)" "is_root p1 b rb" "compressed p1 p2"
    by auto
  have c2: "compressed p p2" using rk f1(3) f2(3) by (rule compressed_trans)
  have rk2: "ranked rk p2" using rk c2 by (rule compressed_ranked)
  have l2: "length p2 = length p" using c2 by (simp add: compressed_def)
  have roots: "rootOf p2 j = rootOf p j" if "j < length p" for j
    using rk c2 that by (rule rootOf_compressed)
  have ra: "rootOf p a = ra" using f1(2) rootOf_iff [OF rk a] by simp
  have "is_root p b rb" using f2(2) compressed_root [OF rk f1(3) b] by simp
  then have rb: "rootOf p b = rb" using rootOf_iff [OF rk b] by simp
  have un: "unite p a b = Some (if ra \<noteq> rb then p2[rb := ra] else p2)"
    by (simp add: unite_def f1(1) f2(1))
  show ?thesis
  proof (cases "ra = rb")
    case True
    then show ?thesis using un rk2 l2 roots ra rb by auto
  next
    case False
    have ra2: "is_root p2 a ra" using f1(2) compressed_root [OF rk c2 a] by simp
    have rb2: "is_root p2 b rb" using \<open>is_root p b rb\<close> compressed_root [OF rk c2 b] by simp
    have fa: "p2 ! ra = ra" using ra2 by (rule is_root_fix)
    have fb: "p2 ! rb = rb" using rb2 by (rule is_root_fix)
    have ba: "ra < length p2" using is_root_bound [OF ra2 rk2] a l2 by simp
    have bb: "rb < length p2" using is_root_bound [OF rb2 rk2] b l2 by simp
    let ?p' = "p2[rb := ra]"
    let ?rk' = "\<lambda>j. if is_root p2 j rb then rk j + rk ra + 1 else rk j"
    have rk': "ranked ?rk' ?p'" using rk2 fa ba fb bb False by (rule link_ranked)
    have "rootOf ?p' j = (if rootOf p j = rootOf p b then rootOf p a else rootOf p j)"
      if j: "j < length p" for j
    proof -
      have "is_root p2 j (rootOf p2 j)" using rk2 j l2 by (simp add: rootOf_root)
      from link_root [OF fa fb False bb this]
      have "is_root ?p' j (if rootOf p2 j = rb then ra else rootOf p2 j)" .
      then have "rootOf ?p' j = (if rootOf p2 j = rb then ra else rootOf p2 j)"
        using rootOf_iff [OF rk', of j] j l2 by simp
      then show ?thesis using roots [OF j] ra rb by simp
    qed
    then show ?thesis using un False rk' l2 by auto
  qed
qed

subsection \<open>Connectivity\<close>

lemma conn_refl: "(i, i) \<in> conn E"
  by (simp add: conn_def)

lemma conn_sym: "(i, j) \<in> conn E \<Longrightarrow> (j, i) \<in> conn E"
proof -
  assume "(i, j) \<in> conn E"
  then have "(j, i) \<in> ((E \<union> E\<inverse>)\<^sup>*)\<inverse>" by (simp add: conn_def)
  then have "(j, i) \<in> ((E \<union> E\<inverse>)\<inverse>)\<^sup>*" by (simp add: rtrancl_converse)
  moreover have "(E \<union> E\<inverse>)\<inverse> = E \<union> E\<inverse>" by auto
  ultimately show ?thesis by (simp add: conn_def)
qed

lemma conn_trans: "(i, j) \<in> conn E \<Longrightarrow> (j, k) \<in> conn E \<Longrightarrow> (i, k) \<in> conn E"
  unfolding conn_def by (rule rtrancl_trans)

lemma conn_edge: "(a, b) \<in> E \<Longrightarrow> (a, b) \<in> conn E"
  unfolding conn_def by blast

lemma conn_mono: "E \<subseteq> E' \<Longrightarrow> (i, j) \<in> conn E \<Longrightarrow> (i, j) \<in> conn E'"
proof -
  assume "E \<subseteq> E'"
  then have "E \<union> E\<inverse> \<subseteq> E' \<union> E'\<inverse>" by auto
  then have "(E \<union> E\<inverse>)\<^sup>* \<subseteq> (E' \<union> E'\<inverse>)\<^sup>*" by (rule rtrancl_mono)
  then show "(i, j) \<in> conn E \<Longrightarrow> (i, j) \<in> conn E'" unfolding conn_def by blast
qed

lemma conn_insert:
  "(i, j) \<in> conn (insert (a, b) E) \<longleftrightarrow>
     (i, j) \<in> conn E \<or> ((i, a) \<in> conn E \<and> (b, j) \<in> conn E)
     \<or> ((i, b) \<in> conn E \<and> (a, j) \<in> conn E)"
proof
  assume "(i, j) \<in> conn (insert (a, b) E)"
  then have "(i, j) \<in> (insert (a, b) E \<union> (insert (a, b) E)\<inverse>)\<^sup>*" by (simp add: conn_def)
  then show "(i, j) \<in> conn E \<or> ((i, a) \<in> conn E \<and> (b, j) \<in> conn E)
     \<or> ((i, b) \<in> conn E \<and> (a, j) \<in> conn E)"
  proof (induction rule: rtrancl_induct)
    case base
    then show ?case by (simp add: conn_refl)
  next
    case (step y z)
    from step.hyps(2) consider "(y, z) \<in> E \<union> E\<inverse>" | "y = a" "z = b" | "y = b" "z = a"
      by auto
    then show ?case
    proof cases
      case 1
      then have yz: "(y, z) \<in> conn E" unfolding conn_def by blast
      from step.IH show ?thesis using yz conn_trans by blast
    next
      case 2
      from step.IH show ?thesis using 2 conn_refl conn_trans conn_sym by blast
    next
      case 3
      from step.IH show ?thesis using 3 conn_refl conn_trans conn_sym by blast
    qed
  qed
next
  have m: "(x, y) \<in> conn E \<Longrightarrow> (x, y) \<in> conn (insert (a, b) E)" for x y
    by (rule conn_mono) auto
  have e: "(a, b) \<in> conn (insert (a, b) E)" by (rule conn_edge) simp
  assume "(i, j) \<in> conn E \<or> ((i, a) \<in> conn E \<and> (b, j) \<in> conn E)
     \<or> ((i, b) \<in> conn E \<and> (a, j) \<in> conn E)"
  then consider "(i, j) \<in> conn E" | "(i, a) \<in> conn E" "(b, j) \<in> conn E"
    | "(i, b) \<in> conn E" "(a, j) \<in> conn E"
    by blast
  then show "(i, j) \<in> conn (insert (a, b) E)"
  proof cases
    case 1
    then show ?thesis by (rule m)
  next
    case 2
    from conn_trans [OF m [OF 2(1)] conn_trans [OF e m [OF 2(2)]]] show ?thesis .
  next
    case 3
    from conn_trans [OF m [OF 3(1)] conn_trans [OF conn_sym [OF e] m [OF 3(2)]]] show ?thesis .
  qed
qed

subsection \<open>The loop over the flows\<close>

lemma conn_empty: "(i, j) \<in> conn {} \<longleftrightarrow> i = j"
  by (simp add: conn_def)

lemma ufInv_init: "ufInv n {} (unionFind n)"
  unfolding ufInv_def
proof (intro conjI allI impI)
  have "ranked (\<lambda>_. 0) (unionFind n)" by (simp add: ranked_def unionFind_def)
  then show "\<exists>rk. ranked rk (unionFind n)" by blast
  show "length (unionFind n) = n" by (simp add: unionFind_def)
  fix i j assume "i < n" "j < n"
  then show "(rootOf (unionFind n) i = rootOf (unionFind n) j) = ((i, j) \<in> conn {})"
    by (simp add: rootOf_init conn_empty)
qed

lemma ufInv_unite:
  assumes inv: "ufInv n E p" and a: "a < n" and b: "b < n"
  shows "\<exists>p'. unite p a b = Some p' \<and> ufInv n (insert (a, b) E) p'"
proof -
  from inv obtain rk where rk: "ranked rk p" and len: "length p = n"
    and eq: "\<And>i j. i < n \<Longrightarrow> j < n \<Longrightarrow> (rootOf p i = rootOf p j) = ((i, j) \<in> conn E)"
    unfolding ufInv_def by blast
  from unite_spec [OF rk, of a b] a b len obtain p' rk' where
    u: "unite p a b = Some p'" and rk': "ranked rk' p'" and len': "length p' = n"
    and roots: "\<And>j. j < n \<Longrightarrow>
        rootOf p' j = (if rootOf p j = rootOf p b then rootOf p a else rootOf p j)"
    by auto
  have "(rootOf p' i = rootOf p' j) = ((i, j) \<in> conn (insert (a, b) E))"
    if i: "i < n" and j: "j < n" for i j
  proof -
    have "((i, j) \<in> conn (insert (a, b) E)) =
        (rootOf p i = rootOf p j \<or> (rootOf p i = rootOf p a \<and> rootOf p b = rootOf p j)
         \<or> (rootOf p i = rootOf p b \<and> rootOf p a = rootOf p j))"
      unfolding conn_insert using eq [OF i j] eq [OF i a] eq [OF b j] eq [OF i b] eq [OF a j]
      by simp
    also have "\<dots> = (rootOf p' i = rootOf p' j)"
      unfolding roots [OF i] roots [OF j] by auto
    finally show ?thesis by simp
  qed
  then have "ufInv n (insert (a, b) E) p'"
    unfolding ufInv_def using rk' len' by blast
  with u show ?thesis by blast
qed

lemma edgesOf_Nil: "edgesOf thr idx [] = {}"
  by (simp add: edgesOf_def)

lemma edgesOf_Cons: "edgesOf thr idx (f # fs) = edgesOf thr idx [f] \<union> edgesOf thr idx fs"
  by (auto simp: edgesOf_def)

lemma uniteFlow_spec:
  assumes inv: "ufInv n E p" and idx: "\<And>s a. idx s = Some a \<Longrightarrow> a < n"
  shows "\<exists>p'. uniteFlow thr idx p f = Some p' \<and> ufInv n (E \<union> edgesOf thr idx [f]) p'"
proof (cases "\<exists>w a b. coupling f = Some w \<and> js_ge w thr
    \<and> idx (f_sourceRef f) = Some a \<and> idx (f_targetRef f) = Some b")
  case True
  then obtain w a b where h: "coupling f = Some w" "js_ge w thr"
    "idx (f_sourceRef f) = Some a" "idx (f_targetRef f) = Some b"
    by blast
  have e: "edgesOf thr idx [f] = {(a, b)}" using h by (auto simp: edgesOf_def)
  have u: "uniteFlow thr idx p f = unite p a b" using h by (simp add: uniteFlow_def)
  from ufInv_unite [OF inv idx [OF h(3)] idx [OF h(4)]] show ?thesis
    unfolding u e by simp
next
  case False
  then have e: "edgesOf thr idx [f] = {}" by (auto simp: edgesOf_def)
  have "uniteFlow thr idx p f = Some p"
    using False by (auto simp: uniteFlow_def split: option.splits)
  with inv e show ?thesis by simp
qed

lemma uniteFlows_spec:
  assumes idx: "\<And>s a. idx s = Some a \<Longrightarrow> a < n"
  shows "ufInv n E p \<Longrightarrow>
    \<exists>p'. uniteFlows thr idx p fs = Some p' \<and> ufInv n (E \<union> edgesOf thr idx fs) p'"
proof (induction fs arbitrary: p E)
  case Nil
  then show ?case by (simp add: edgesOf_Nil)
next
  case (Cons f fs)
  have "\<exists>p1. uniteFlow thr idx p f = Some p1 \<and> ufInv n (E \<union> edgesOf thr idx [f]) p1"
    using Cons.prems by (rule uniteFlow_spec) (rule idx)
  then obtain p1 where
    p1: "uniteFlow thr idx p f = Some p1" "ufInv n (E \<union> edgesOf thr idx [f]) p1"
    by blast
  from Cons.IH [OF p1(2)] obtain p' where
    p': "uniteFlows thr idx p1 fs = Some p'"
      "ufInv n (E \<union> edgesOf thr idx [f] \<union> edgesOf thr idx fs) p'"
    by blast
  have "E \<union> edgesOf thr idx (f # fs) = E \<union> edgesOf thr idx [f] \<union> edgesOf thr idx fs"
    using edgesOf_Cons [of thr idx f fs] by auto
  with p' p1(1) show ?case by simp
qed

subsection \<open>groups\<close>

lemma grouped_add:
  assumes "grouped \<rho> done g"
  shows "grouped \<rho> (done @ [i]) (addMember g (\<rho> i) i)"
proof -
  from assms have d: "distinct (map fst g)"
    and s: "\<And>e. e \<in> set g \<Longrightarrow> snd e = filter (\<lambda>i. \<rho> i = fst e) done \<and> snd e \<noteq> []"
    and k: "fst ` set g = \<rho> ` set done"
    unfolding grouped_def by blast+
  show ?thesis
  proof (cases "\<rho> i \<in> fst ` set g")
    case True
    let ?u = "\<lambda>e. if fst e = \<rho> i then (fst e, snd e @ [i]) else e"
    have g': "addMember g (\<rho> i) i = map ?u g" using True by (simp add: addMember_def)
    have fu: "fst (?u e) = fst e" for e :: "nat \<times> nat list" by simp
    have mf: "map fst (map ?u g) = map fst g" unfolding map_map comp_def fu ..
    have "distinct (map fst (map ?u g))" unfolding mf by (rule d)
    moreover have "snd e' = filter (\<lambda>j. \<rho> j = fst e') (done @ [i]) \<and> snd e' \<noteq> []"
      if "e' \<in> set (map ?u g)" for e'
    proof -
      from that [unfolded set_map] obtain e where e: "e' = ?u e" "e \<in> set g"
        by (rule imageE)
      from s [OF e(2)] e(1) show ?thesis by (cases "fst e = \<rho> i") auto
    qed
    moreover have "fst ` set (map ?u g) = \<rho> ` set (done @ [i])"
    proof -
      have "fst ` set (map ?u g) = set (map fst (map ?u g))" by (simp only: set_map)
      also have "\<dots> = fst ` set g" unfolding mf by simp
      also have "\<dots> = \<rho> ` set (done @ [i])" using k True by auto
      finally show ?thesis .
    qed
    ultimately show ?thesis unfolding grouped_def g' by blast
  next
    case False
    have g': "addMember g (\<rho> i) i = g @ [(\<rho> i, [i])]" using False by (simp add: addMember_def)
    have "\<rho> i \<notin> \<rho> ` set done" using False k by simp
    then have "\<rho> j \<noteq> \<rho> i" if "j \<in> set done" for j using that by (metis imageI)
    then have none: "filter (\<lambda>j. \<rho> j = \<rho> i) done = []"
      by (simp add: filter_empty_conv)
    have "distinct (map fst (g @ [(\<rho> i, [i])]))" using d False by simp
    moreover have "snd e' = filter (\<lambda>j. \<rho> j = fst e') (done @ [i]) \<and> snd e' \<noteq> []"
      if "e' \<in> set (g @ [(\<rho> i, [i])])" for e'
    proof (cases "e' \<in> set g")
      case True
      then have "fst e' \<noteq> \<rho> i" using \<open>\<rho> i \<notin> fst ` set g\<close> by (metis imageI)
      with s [OF True] show ?thesis by auto
    next
      case False
      with that have "e' = (\<rho> i, [i])" by simp
      then show ?thesis using none by simp
    qed
    moreover have "fst ` set (g @ [(\<rho> i, [i])]) = \<rho> ` set (done @ [i])"
      using k by auto
    ultimately show ?thesis unfolding grouped_def g' by blast
  qed
qed

lemma grouped_fold:
  "grouped \<rho> done g \<Longrightarrow> grouped \<rho> (done @ is) (foldl (\<lambda>g i. addMember g (\<rho> i) i) g is)"
proof (induction "is" arbitrary: "done" g)
  case Nil
  then show ?case by simp
next
  case (Cons i "is")
  from Cons.IH [OF grouped_add [OF Cons.prems, of i]] show ?case by simp
qed

lemma grouped_groupBy: "grouped \<rho> is (groupBy \<rho> is)"
proof -
  have "grouped \<rho> [] []" by (simp add: grouped_def)
  from grouped_fold [OF this, of "is"] show ?thesis by (simp add: groupBy_def)
qed

lemma grouped_partition:
  assumes gr: "grouped \<rho> is G" and di: "distinct is"
  shows "distinct (concat (map snd G))"
    and "set (concat (map snd G)) = set is"
    and "[] \<notin> set (map snd G)"
    and "\<And>c i. c \<in> set (map snd G) \<Longrightarrow> i \<in> set c \<Longrightarrow> set c = {j \<in> set is. \<rho> j = \<rho> i}"
proof -
  from gr have d: "distinct (map fst G)"
    and s: "\<And>e. e \<in> set G \<Longrightarrow> snd e = filter (\<lambda>i. \<rho> i = fst e) is \<and> snd e \<noteq> []"
    and k: "fst ` set G = \<rho> ` set is"
    unfolding grouped_def by blast+
  have mem: "i \<in> set (snd e) \<longleftrightarrow> i \<in> set is \<and> \<rho> i = fst e" if "e \<in> set G" for e i
    using s [OF that] by auto
  show "[] \<notin> set (map snd G)"
  proof
    assume "[] \<in> set (map snd G)"
    then obtain e where "[] = snd e" "e \<in> set G" unfolding set_map by (rule imageE)
    with s [of e] show False by simp
  qed
  show "set (concat (map snd G)) = set is"
  proof
    show "set (concat (map snd G)) \<subseteq> set is" using mem by auto
    show "set is \<subseteq> set (concat (map snd G))"
    proof
      fix i assume i: "i \<in> set is"
      then have "\<rho> i \<in> fst ` set G" using k by simp
      then obtain e where e: "e \<in> set G" "fst e = \<rho> i" by auto
      then have "i \<in> set (snd e)" using mem i by simp
      with e(1) show "i \<in> set (concat (map snd G))" by auto
    qed
  qed
  show "set c = {j \<in> set is. \<rho> j = \<rho> i}" if "c \<in> set (map snd G)" "i \<in> set c" for c i
  proof -
    from that(1) [unfolded set_map] obtain e where e: "c = snd e" "e \<in> set G"
      by (rule imageE)
    from that(2) e have "\<rho> i = fst e" using mem [OF e(2)] by simp
    then show ?thesis using e mem [OF e(2)] by auto
  qed
  have inj: "inj_on snd (set G)"
  proof (rule inj_onI)
    fix e e' assume e: "e \<in> set G" "e' \<in> set G" "snd e = snd e'"
    have "snd e \<noteq> []" using s [OF e(1)] by blast
    then obtain i where i: "i \<in> set (snd e)" by (cases "snd e") auto
    then have "\<rho> i = fst e" using mem e(1) by simp
    moreover have "\<rho> i = fst e'" using i e(2,3) mem by simp
    ultimately show "e = e'" using e(3) by (simp add: prod_eq_iff)
  qed
  have dG: "distinct G" using d by (simp add: distinct_map)
  show "distinct (concat (map snd G))"
  proof (rule distinct_concat)
    show "distinct (map snd G)" using dG inj by (simp add: distinct_map)
  next
    fix ys assume "ys \<in> set (map snd G)"
    then obtain e where "ys = snd e" "e \<in> set G" unfolding set_map by (rule imageE)
    with s [of e] di show "distinct ys" by simp
  next
    fix ys zs assume y: "ys \<in> set (map snd G)" and z: "zs \<in> set (map snd G)" and ne: "ys \<noteq> zs"
    from y [unfolded set_map] obtain e where e: "ys = snd e" "e \<in> set G" by (rule imageE)
    from z [unfolded set_map] obtain e' where e': "zs = snd e'" "e' \<in> set G" by (rule imageE)
    have "fst e \<noteq> fst e'"
    proof
      assume "fst e = fst e'"
      then have "snd e = snd e'" using s [OF e(2)] s [OF e'(2)] by simp
      with ne e e' show False by simp
    qed
    then show "set ys \<inter> set zs = {}" using mem [OF e(2)] mem [OF e'(2)] e(1) e'(1) by auto
  qed
qed

lemma groupsLoop_spec:
  "ranked rk p \<Longrightarrow> set is \<subseteq> {..<length p} \<Longrightarrow>
   \<exists>p'. groupsLoop p g is = Some (p', foldl (\<lambda>g i. addMember g (rootOf p i) i) g is)
        \<and> compressed p p'"
proof (induction "is" arbitrary: p g)
  case Nil
  then show ?case by (simp add: compressed_refl)
next
  case (Cons i "is")
  have i: "i < length p" using Cons.prems(2) by simp
  from uf_find_spec [OF Cons.prems(1) i] obtain r p1 where
    f: "uf_find p i = Some (r, p1)" "is_root p i r" "compressed p p1"
    by blast
  have r: "r = rootOf p i" using f(2) rootOf_iff [OF Cons.prems(1) i] by simp
  have rk1: "ranked rk p1" using Cons.prems(1) f(3) by (rule compressed_ranked)
  have l1: "length p1 = length p" using f(3) by (simp add: compressed_def)
  have sub: "set is \<subseteq> {..<length p1}" using Cons.prems(2) l1 by simp
  from Cons.IH [OF rk1 sub, of "addMember g r i"] obtain p' where
    p': "groupsLoop p1 (addMember g r i) is
        = Some (p', foldl (\<lambda>g i. addMember g (rootOf p1 i) i) (addMember g r i) is)"
      "compressed p1 p'"
    by blast
  have "foldl (\<lambda>g i. addMember g (rootOf p1 i) i) (addMember g r i) is
      = foldl (\<lambda>g i. addMember g (rootOf p i) i) (addMember g r i) is"
  proof (rule foldl_cong [OF refl refl])
    fix a x assume "x \<in> set is"
    then have "x < length p" using Cons.prems(2) by auto
    then show "addMember a (rootOf p1 x) x = addMember a (rootOf p x) x"
      using rootOf_compressed [OF Cons.prems(1) f(3)] by simp
  qed
  moreover have "compressed p p'" using Cons.prems(1) f(3) p'(2) by (rule compressed_trans)
  ultimately show ?case using f(1) p'(1) r by simp
qed

lemma ufGroups_spec:
  assumes "ranked rk p"
  shows "ufGroups p = Some (map snd (groupBy (rootOf p) [0..<length p]))"
proof -
  have "set [0..<length p] \<subseteq> {..<length p}" by auto
  from groupsLoop_spec [OF assms this, of "[]"] show ?thesis
    by (auto simp: ufGroups_def groupBy_def)
qed

subsection \<open>The components\<close>

lemma idToIdx_bound: "idToIdx ts s = Some a \<Longrightarrow> a < length ts"
proof -
  assume "idToIdx ts s = Some a"
  then have "(s, a) \<in> set (rev (zip (map t_id ts) [0..<length ts]))"
    unfolding idToIdx_def by (rule map_of_SomeD)
  then have "(s, a) \<in> set (zip (map t_id ts) [0..<length ts])" by simp
  then have "a \<in> set [0..<length ts]" by (rule set_zip_rightD)
  then show ?thesis by simp
qed

lemma idToIdx_distinct:
  assumes "distinct (map t_id ts)"
  shows "idToIdx ts s = Some a \<longleftrightarrow> a < length ts \<and> t_id (ts ! a) = s"
proof -
  have "map fst (rev (zip (map t_id ts) [0..<length ts])) = rev (map t_id ts)"
    by (simp add: rev_map [symmetric])
  then have "distinct (map fst (rev (zip (map t_id ts) [0..<length ts])))"
    using assms by simp
  then have "idToIdx ts s = Some a
      \<longleftrightarrow> (s, a) \<in> set (rev (zip (map t_id ts) [0..<length ts]))"
    unfolding idToIdx_def by (rule map_of_eq_Some_iff)
  also have "\<dots> \<longleftrightarrow> a < length ts \<and> t_id (ts ! a) = s"
  proof
    assume "(s, a) \<in> set (rev (zip (map t_id ts) [0..<length ts]))"
    then show "a < length ts \<and> t_id (ts ! a) = s" by (auto simp: in_set_zip)
  next
    assume h: "a < length ts \<and> t_id (ts ! a) = s"
    then have "map t_id ts ! a = s \<and> [0..<length ts] ! a = a \<and> a < length ts" by simp
    then have "(s, a) \<in> set (zip (map t_id ts) [0..<length ts])"
      unfolding in_set_zip by (intro exI [of _ a]) simp
    then show "(s, a) \<in> set (rev (zip (map t_id ts) [0..<length ts]))" by simp
  qed
  finally show ?thesis .
qed

lemma edgesOf_strong:
  assumes "distinct (map t_id (tasks d))" and "None \<notin> set (map t_id (tasks d))"
  shows "edgesOf thr (idToIdx (tasks d)) (flows d) = strongEdges d thr"
proof -
  have some: "\<exists>s. t_id (tasks d ! i) = Some s" if "i < length (tasks d)" for i
  proof -
    have "t_id (tasks d ! i) \<in> set (map t_id (tasks d))" using that by simp
    with assms(2) have "t_id (tasks d ! i) \<noteq> None" by metis
    then show ?thesis by auto
  qed
  show ?thesis
    unfolding edgesOf_def strongEdges_def idToIdx_distinct [OF assms(1)]
    using some by (auto; metis)
qed

subsection \<open>The groups written\<close>

lemma materialize_frame [simp]:
  "tasks (materialize d ci) = tasks d"
  "flows (materialize d ci) = flows d"
  "groups (materialize d ci) = groups d @ [groupOf (snd ci)]"
  "associations (materialize d ci)
     = associations d @ map (\<lambda>i. memberAssoc (snd ci) (t_id (tasks d ! i))) (fst ci)
         @ [noteAssoc (snd ci)]"
  by (simp_all add: materialize_def Let_def groupOf_def memberAssoc_def noteAssoc_def)

lemma materialize_fold:
  "tasks (foldl materialize d cs) = tasks d
   \<and> flows (foldl materialize d cs) = flows d
   \<and> groups (foldl materialize d cs) = groups d @ map (\<lambda>ci. groupOf (snd ci)) cs
   \<and> associations (foldl materialize d cs)
     = associations d
       @ concat (map (\<lambda>ci. map (\<lambda>i. memberAssoc (snd ci) (t_id (tasks d ! i))) (fst ci)
                            @ [noteAssoc (snd ci)]) cs)"
proof (induction cs arbitrary: d)
  case Nil
  show ?case by simp
next
  case (Cons c cs)
  show ?case using Cons.IH [of "materialize d c"] by simp
qed

lemma fragmentByCoupling_written:
  assumes "fragmentComps d thr incl = Some cs"
  shows "\<exists>d'. fragmentByCoupling d thr incl = Some (length cs, d')
    \<and> groups d' = groups d @ map groupOf [0..<length cs]
    \<and> associations d' = associations d
         @ concat (map (\<lambda>ci. map (\<lambda>i. memberAssoc (snd ci) (t_id (tasks d ! i))) (fst ci)
                              @ [noteAssoc (snd ci)]) (zip cs [0..<length cs]))
    \<and> tasks d' = tasks d \<and> flows d' = flows d"
proof -
  let ?d' = "foldl materialize (ensurePlane d) (zip cs [0..<length cs])"
  have r: "fragmentByCoupling d thr incl = Some (length cs, ?d')"
    using assms by (simp add: fragmentByCoupling_def)
  have e: "tasks (ensurePlane d) = tasks d" "flows (ensurePlane d) = flows d"
    "groups (ensurePlane d) = groups d" "associations (ensurePlane d) = associations d"
    by (simp_all add: ensurePlane_def)
  have g: "map (\<lambda>ci. groupOf (snd ci)) (zip cs [0..<length cs]) = map groupOf [0..<length cs]"
  proof -
    have "map snd (zip cs [0..<length cs]) = [0..<length cs]"
      by (rule map_snd_zip) simp
    then have "map groupOf (map snd (zip cs [0..<length cs])) = map groupOf [0..<length cs]"
      by (rule arg_cong)
    then show ?thesis unfolding map_map comp_def .
  qed
  note m = materialize_fold [of "ensurePlane d" "zip cs [0..<length cs]", unfolded e g]
  show ?thesis using r m by blast
qed

text \<open>
  C2 as stated fails where an id does not name one task. In \<open>twinDoc\<close> the flow from \<open>A\<close>
  to \<open>B\<close> joins \<open>B\<close> to both tasks of the id \<open>A\<close>, and the first of them is left in a
  group of its own: the map from ids to indices keeps the last task of an id. In
  \<open>anonymousDoc\<close> the flow has no \<^verbatim>\<open>sourceRef\<close> and joins \<open>B\<close> to no task, and the task
  without id is put into the group of \<open>B\<close>: both attributes read \<^verbatim>\<open>null\<close>.
\<close>

theorem fragment_components_counterexample:
  "fragmentComps twinDoc (Num (7/10)) True = Some [[0], [1, 2]]
   \<and> (0, 2) \<in> conn (strongEdges twinDoc (Num (7/10)))
   \<and> fragmentComps anonymousDoc (Num (7/10)) True = Some [[0, 1]]
   \<and> (0, 1) \<notin> conn (strongEdges anonymousDoc (Num (7/10)))"
proof -
  have c: "fragmentComps twinDoc (Num (7/10)) True = Some [[0], [1, 2]]
      \<and> fragmentComps anonymousDoc (Num (7/10)) True = Some [[0, 1]]"
    by code_simp
  have "(0, 2) \<in> strongEdges twinDoc (Num (7/10))"
    by (simp add: strongEdges_def twinDoc_def mkW_def mkFlow_def mkTask_def)
  then have t: "(0, 2) \<in> conn (strongEdges twinDoc (Num (7/10)))" by (rule conn_edge)
  have "strongEdges anonymousDoc (Num (7/10)) = {}"
    by (simp add: strongEdges_def anonymousDoc_def noSourceFlow_def)
  then have a: "(0, 1) \<notin> conn (strongEdges anonymousDoc (Num (7/10)))"
    by (simp add: conn_empty)
  show ?thesis using c t a by simp
qed

text \<open>
  C2, amended. For every threshold the computation of the components returns. The
  components are non-empty lists of task indices in which every task occurs exactly
  once. With singletons included they are the groups, with singletons excluded the
  components of size one are filtered out and the others are the groups: the run
  reports their number and appends, for the group of ordinal \<open>k\<close>, the group element
  \<open>Fragment_(k+1)\<close>, one association from it to each of its members, and the
  association of its note. When every task carries an id and no two tasks carry the
  same, the component of a task holds exactly the tasks connected to it by flows of
  weight at least the threshold between tasks (a flow without weight is no edge).
\<close>

theorem fragment_components:
  "\<exists>comps. fragmentComps d thr True = Some comps
    \<and> distinct (concat comps)
    \<and> set (concat comps) = {..<length (tasks d)}
    \<and> [] \<notin> set comps
    \<and> (\<forall>incl. \<exists>d'.
          (let cs = (if incl then comps else filter (\<lambda>c. 1 < length c) comps) in
             fragmentByCoupling d thr incl = Some (length cs, d')
             \<and> groups d' = groups d @ map groupOf [0..<length cs]
             \<and> associations d' = associations d
                 @ concat (map (\<lambda>ci. map (\<lambda>i. memberAssoc (snd ci) (t_id (tasks d ! i))) (fst ci)
                                      @ [noteAssoc (snd ci)]) (zip cs [0..<length cs]))
             \<and> tasks d' = tasks d \<and> flows d' = flows d))
    \<and> (distinct (map t_id (tasks d)) \<and> None \<notin> set (map t_id (tasks d)) \<longrightarrow>
         (\<forall>c \<in> set comps. \<forall>i \<in> set c.
            set c = {j. j < length (tasks d) \<and> (i, j) \<in> conn (strongEdges d thr)}))"
proof -
  define n where "n = length (tasks d)"
  define E where "E = edgesOf thr (idToIdx (tasks d)) (flows d)"
  have "\<exists>p. uniteFlows thr (idToIdx (tasks d)) (unionFind n) (flows d) = Some p
      \<and> ufInv n ({} \<union> edgesOf thr (idToIdx (tasks d)) (flows d)) p"
    using ufInv_init unfolding n_def by (rule uniteFlows_spec [rotated]) (rule idToIdx_bound)
  then obtain p where p: "uniteFlows thr (idToIdx (tasks d)) (unionFind n) (flows d) = Some p"
    and inv: "ufInv n E p"
    unfolding E_def by auto
  from inv obtain rk where rk: "ranked rk p" and len: "length p = n"
    and eq: "\<And>i j. i < n \<Longrightarrow> j < n \<Longrightarrow> (rootOf p i = rootOf p j) = ((i, j) \<in> conn E)"
    unfolding ufInv_def by blast
  define comps where "comps = map snd (groupBy (rootOf p) [0..<n])"
  have g: "ufGroups p = Some comps"
    unfolding comps_def using ufGroups_spec [OF rk] len by simp
  have t: "fragmentComps d thr True = Some comps"
    and f: "fragmentComps d thr False = Some (filter (\<lambda>c. 1 < length c) comps)"
    using p g by (simp_all add: fragmentComps_def n_def)
  have gr: "grouped (rootOf p) [0..<n] (groupBy (rootOf p) [0..<n])"
    by (rule grouped_groupBy)
  have di: "distinct [0..<n]" by simp
  note part = grouped_partition [OF gr di, folded comps_def]
  have all: "set (concat comps) = {..<n}" using part(2) by auto
  have cls: "set c = {j. j < n \<and> (i, j) \<in> conn E}" if c: "c \<in> set comps" and i: "i \<in> set c" for c i
  proof -
    have "i \<in> set (concat comps)" using c i by auto
    then have "i \<in> {..<n}" unfolding all .
    then have il: "i < n" by simp
    have "set c = {j \<in> set [0..<n]. rootOf p j = rootOf p i}" using c i by (rule part(4))
    also have "\<dots> = {j. j < n \<and> (i, j) \<in> conn E}"
    proof -
      have "(rootOf p j = rootOf p i) = ((i, j) \<in> conn E)" if "j < n" for j
        using eq [OF il that] by metis
      then show ?thesis by auto
    qed
    finally show ?thesis .
  qed
  have wr: "\<exists>d'.
          (let cs = (if incl then comps else filter (\<lambda>c. 1 < length c) comps) in
             fragmentByCoupling d thr incl = Some (length cs, d')
             \<and> groups d' = groups d @ map groupOf [0..<length cs]
             \<and> associations d' = associations d
                 @ concat (map (\<lambda>ci. map (\<lambda>i. memberAssoc (snd ci) (t_id (tasks d ! i))) (fst ci)
                                      @ [noteAssoc (snd ci)]) (zip cs [0..<length cs]))
             \<and> tasks d' = tasks d \<and> flows d' = flows d)" for incl
  proof (cases incl)
    case True
    from fragmentByCoupling_written [OF t] show ?thesis unfolding Let_def using True by simp
  next
    case False
    from fragmentByCoupling_written [OF f] show ?thesis unfolding Let_def using False by simp
  qed
  have st: "\<forall>c \<in> set comps. \<forall>i \<in> set c.
            set c = {j. j < length (tasks d) \<and> (i, j) \<in> conn (strongEdges d thr)}"
    if "distinct (map t_id (tasks d)) \<and> None \<notin> set (map t_id (tasks d))"
  proof -
    have "E = strongEdges d thr"
      unfolding E_def using that by (intro edgesOf_strong) simp_all
    then show ?thesis using cls unfolding n_def by blast
  qed
  show ?thesis
    using t part(1) all part(3) wr st unfolding n_def by blast
qed

lemma fiveDoc_comps:
  "fragmentComps fiveDoc (Num (7/10)) True = Some [[0, 1, 2], [3, 4]]
   \<and> fragmentComps fiveDoc (Num (7/10)) False = Some [[0, 1, 2], [3, 4]]
   \<and> fragmentComps fiveDoc (Num (95/100)) True = Some [[0], [1], [2], [3], [4]]
   \<and> fragmentComps fiveDoc (Num (95/100)) False = Some []"
  by code_simp

theorem fragment_components_witness:
  "distinct (map t_id (tasks fiveDoc)) \<and> None \<notin> set (map t_id (tasks fiveDoc))
   \<and> fragmentComps fiveDoc (Num (7/10)) True = Some [[0, 1, 2], [3, 4]]
   \<and> fragmentComps fiveDoc (Num (7/10)) False = Some [[0, 1, 2], [3, 4]]
   \<and> {j. j < length (tasks fiveDoc) \<and> (0, j) \<in> conn (strongEdges fiveDoc (Num (7/10)))} = {0, 1, 2}
   \<and> {j. j < length (tasks fiveDoc) \<and> (3, j) \<in> conn (strongEdges fiveDoc (Num (7/10)))} = {3, 4}
   \<and> map_option fst (fragmentByCoupling fiveDoc (Num (7/10)) True) = Some 2
   \<and> map_option (\<lambda>r. map g_id (groups (snd r))) (fragmentByCoupling fiveDoc (Num (7/10)) True)
       = Some [Some ''Fragment_1'', Some ''Fragment_2'']
   \<and> map_option fst (fragmentByCoupling fiveDoc (Num (95/100)) False) = Some 0"
proof -
  have d: "distinct (map t_id (tasks fiveDoc)) \<and> None \<notin> set (map t_id (tasks fiveDoc))"
    by (simp add: fiveDoc_def mkTask_def)
  from fragment_components [of fiveDoc "Num (7/10)"] obtain comps where
    c: "fragmentComps fiveDoc (Num (7/10)) True = Some comps"
    and k: "distinct (map t_id (tasks fiveDoc)) \<and> None \<notin> set (map t_id (tasks fiveDoc)) \<longrightarrow>
        (\<forall>c \<in> set comps. \<forall>i \<in> set c.
          set c = {j. j < length (tasks fiveDoc) \<and> (i, j) \<in> conn (strongEdges fiveDoc (Num (7/10)))})"
    by blast
  have e: "comps = [[0, 1, 2], [3, 4]]" using c fiveDoc_comps by simp
  have "set [0, 1, 2::nat] = {j. j < length (tasks fiveDoc)
      \<and> (0, j) \<in> conn (strongEdges fiveDoc (Num (7/10)))}"
    using k d unfolding e by simp
  moreover have "set [3, 4::nat] = {j. j < length (tasks fiveDoc)
      \<and> (3, j) \<in> conn (strongEdges fiveDoc (Num (7/10)))}"
    using k d unfolding e by simp
  moreover have "map_option fst (fragmentByCoupling fiveDoc (Num (7/10)) True) = Some 2
   \<and> map_option (\<lambda>r. map g_id (groups (snd r))) (fragmentByCoupling fiveDoc (Num (7/10)) True)
       = Some [Some ''Fragment_1'', Some ''Fragment_2'']
   \<and> map_option fst (fragmentByCoupling fiveDoc (Num (95/100)) False) = Some 0"
    by code_simp
  ultimately show ?thesis using d fiveDoc_comps by simp
qed


end
